theory Spec2Isabelle
  imports Main "HOL-Library.AList"
begin

section \<open>Data model (types.ts)\<close>

text \<open>
  The TypeScript interfaces become records. An optional field \<^verbatim>\<open>f?: T\<close> is a
  \<open>T option\<close> (\<open>None\<close> is \<^verbatim>\<open>undefined\<close>). A string-keyed object such as
  \<^verbatim>\<open>Commands\<close> is a partial map of its own keys. A JavaScript \<^verbatim>\<open>Map\<close> is an association list in
  insertion order with distinct keys (\<open>AList.update\<close> is \<^verbatim>\<open>Map.set\<close>: it overwrites in
  place or appends), and a \<^verbatim>\<open>Set\<close> is a list in insertion order without repetitions.
  Several interfaces share field names (\<open>workspace\<close>, \<open>path\<close>, \<open>alias\<close>, \<open>version\<close>,
  \<open>dependencies\<close>, \<open>config\<close>); where a name is ambiguous it is written qualified, as in
  \<open>Workspace.path\<close>.
\<close>

type_synonym Commands = "string \<rightharpoonup> string"

record WorkspaceRoot =
  "alias" :: string
  path :: string

record PackageJson =
  name :: string
  version :: "string option"
  dependencies :: "(string \<times> string) list option"
  devDependencies :: "(string \<times> string) list option"

record Resolution =
  version :: string
  resolvedPath :: string

type_synonym ResolutionMap = "string \<rightharpoonup> (string \<rightharpoonup> Resolution)"

record ConflictInfo =
  packageName :: string
  versions :: "(string \<times> string list) list"

record Workspace =
  path :: string
  "alias" :: "string option"
  dependsOn :: "string list option"
  command :: "Commands option"

record spinxConfig =
  concurrency :: "nat option"
  workspace :: "Workspace list"
  defaults :: "Commands option"

record GraphNode =
  workspace :: Workspace
  dependencies :: "string list"
  dependents :: "string list"

record TaskResult =
  workspace :: string
  success :: bool
  duration :: nat
  error :: "string option"

type_synonym Graph = "(string \<times> GraphNode) list"

text \<open>Every \<^verbatim>\<open>throw new Error(...)\<close> of the sources is a constructor of this type.\<close>

datatype error =
    DuplicateAlias string
  | DuplicatePath string
  | PathDoesNotExist string
  | UnknownAlias string string
  | CircularDependency "string list"
  | GraphContainsCycles
  | UnableToDetermineBatches
  | WorkspaceNotFound string
  | RunFailed string
  | TypeError

section \<open>JavaScript helpers\<close>

text \<open>\<^verbatim>\<open>a || b\<close> on \<^verbatim>\<open>string | undefined\<close>: \<^verbatim>\<open>undefined\<close> and \<^verbatim>\<open>""\<close> are falsy.\<close>

definition truthy :: "string option \<Rightarrow> bool" where
  "truthy a = (case a of None \<Rightarrow> False | Some s \<Rightarrow> s \<noteq> [])"

definition js_or :: "string option \<Rightarrow> string option \<Rightarrow> string option" where
  "js_or a b = (if truthy a then a else b)"

text \<open>\<^verbatim>\<open>s.startsWith(p)\<close>\<close>

definition startsWith :: "string \<Rightarrow> string \<Rightarrow> bool" where
  "startsWith s p = (take (length p) s = p)"

text \<open>\<^verbatim>\<open>set.add(x)\<close> and \<^verbatim>\<open>new Set(xs)\<close>: the first insertion fixes the position.\<close>

definition set_add :: "'a \<Rightarrow> 'a list \<Rightarrow> 'a list" where
  "set_add x s = (if x \<in> set s then s else s @ [x])"

definition new_Set :: "'a list \<Rightarrow> 'a list" where
  "new_Set xs = fold set_add xs []"

text \<open>\<^verbatim>\<open>workspace.alias || workspace.path\<close>, the key of a workspace everywhere.\<close>

definition identity :: "Workspace \<Rightarrow> string" where
  "identity ws = (case js_or (alias ws) (Some (Workspace.path ws)) of Some s \<Rightarrow> s | None \<Rightarrow> [])"

section \<open>Configuration (config.ts): getCommand\<close>

text \<open>
  \<^verbatim>\<open>workspace.command?.[commandType] || config.defaults?.[commandType]\<close>

  \<^verbatim>\<open>obj?.[commandType]\<close> is a property access: \<^verbatim>\<open>undefined\<close> when \<^verbatim>\<open>obj\<close> is \<^verbatim>\<open>undefined\<close>,
  the object's own value when it has the key, and otherwise what the name inherits. The
  commands objects are plain objects, so a name that is no own key but a property of
  \<^verbatim>\<open>Object.prototype\<close> reads as that inherited function or object, which is truthy and
  no string. \<open>Object_prototype\<close> lists the property names of \<^verbatim>\<open>Object.prototype\<close>;
  \<open>Inherited n\<close> is the value inherited under the name \<open>n\<close>.
\<close>

datatype jsval = Str string | Inherited string

definition Object_prototype :: "string list" where
  "Object_prototype =
     [''constructor'', ''__defineGetter__'', ''__defineSetter__'', ''hasOwnProperty'',
      ''__lookupGetter__'', ''__lookupSetter__'', ''isPrototypeOf'', ''propertyIsEnumerable'',
      ''toString'', ''valueOf'', ''__proto__'', ''toLocaleString'']"

definition truthy_val :: "jsval option \<Rightarrow> bool" where
  "truthy_val v = (case v of None \<Rightarrow> False | Some (Str s) \<Rightarrow> s \<noteq> [] | Some (Inherited n) \<Rightarrow> True)"

definition lookup_command :: "Commands option \<Rightarrow> string \<Rightarrow> jsval option" where
  "lookup_command cmds commandType =
     (case cmds of
        None \<Rightarrow> None
      | Some m \<Rightarrow>
          (case m commandType of
             Some s \<Rightarrow> Some (Str s)
           | None \<Rightarrow>
               if commandType \<in> set Object_prototype then Some (Inherited commandType)
               else None))"

definition getCommand :: "Workspace \<Rightarrow> string \<Rightarrow> spinxConfig \<Rightarrow> jsval option" where
  "getCommand ws commandType cfg =
     (let c = lookup_command (command ws) commandType in
      if truthy_val c then c else lookup_command (defaults cfg) commandType)"

section \<open>Configuration (config.ts): validateWorkspaces\<close>

definition known_alias :: "spinxConfig \<Rightarrow> string \<Rightarrow> bool" where
  "known_alias cfg dep = (\<exists>w \<in> set (spinxConfig.workspace cfg). alias w = Some dep)"

fun check_dependsOn :: "spinxConfig \<Rightarrow> Workspace \<Rightarrow> string list \<Rightarrow> error + unit" where
  "check_dependsOn cfg ws [] = Inr ()"
| "check_dependsOn cfg ws (dep # deps) =
     (if \<not> known_alias cfg dep then Inl (UnknownAlias (identity ws) dep)
      else check_dependsOn cfg ws deps)"

fun validate_loop ::
  "(string \<Rightarrow> bool) \<Rightarrow> spinxConfig \<Rightarrow> Workspace list \<Rightarrow> string list \<Rightarrow> string list \<Rightarrow> error + unit" where
  "validate_loop existsSync cfg [] aliases paths = Inr ()"
| "validate_loop existsSync cfg (ws # rest) aliases paths =
     (if truthy (alias ws) \<and> the (alias ws) \<in> set aliases then
        Inl (DuplicateAlias (the (alias ws)))
      else
        let aliases' = (if truthy (alias ws) then set_add (the (alias ws)) aliases else aliases) in
        if Workspace.path ws \<in> set paths then Inl (DuplicatePath (Workspace.path ws))
        else
          let paths' = set_add (Workspace.path ws) paths in
          if \<not> existsSync (Workspace.path ws) then Inl (PathDoesNotExist (Workspace.path ws))
          else
            (case check_dependsOn cfg ws (case dependsOn ws of None \<Rightarrow> [] | Some deps \<Rightarrow> deps) of
               Inl e \<Rightarrow> Inl e
             | Inr u \<Rightarrow> validate_loop existsSync cfg rest aliases' paths'))"

definition validateWorkspaces :: "(string \<Rightarrow> bool) \<Rightarrow> spinxConfig \<Rightarrow> error + unit" where
  "validateWorkspaces existsSync cfg =
     validate_loop existsSync cfg (spinxConfig.workspace cfg) [] []"

section \<open>Dependency graph (graph.ts)\<close>

text \<open>
  \<^verbatim>\<open>nodes\<close> is a JavaScript \<^verbatim>\<open>Map\<close>, kept here as an association list in insertion order;
  \<^verbatim>\<open>dependencies\<close> and \<^verbatim>\<open>dependents\<close> are \<^verbatim>\<open>Set\<close>s, kept as duplicate-free lists in
  insertion order.

  \<^verbatim>\<open>buildGraph\<close>: the first loop sets, for each workspace, the node
  \<^verbatim>\<open>{workspace, dependencies: new Set(workspace.dependsOn || []), dependents: new Set()}\<close>
  under the key \<^verbatim>\<open>workspace.alias || workspace.path\<close>; the second loop adds, for each node
  and each of its dependencies that is a node, the alias to that node's dependents.
\<close>

definition new_node :: "Workspace \<Rightarrow> GraphNode" where
  "new_node ws =
     \<lparr>GraphNode.workspace = ws,
      dependencies = new_Set (case dependsOn ws of None \<Rightarrow> [] | Some ds \<Rightarrow> ds),
      dependents = []\<rparr>"

definition init_nodes :: "Workspace list \<Rightarrow> Graph" where
  "init_nodes wss = fold (\<lambda>ws nodes. AList.update (identity ws) (new_node ws) nodes) wss []"

definition add_dependent :: "string \<Rightarrow> string \<Rightarrow> Graph \<Rightarrow> Graph" where
  "add_dependent a dep nodes =
     (case map_of nodes dep of
        None \<Rightarrow> nodes
      | Some depNode \<Rightarrow>
          AList.update dep (depNode\<lparr>dependents := set_add a (dependents depNode)\<rparr>) nodes)"

definition build_dependents :: "Graph \<Rightarrow> Graph" where
  "build_dependents nodes0 =
     fold (\<lambda>(a, node) nodes. fold (add_dependent a) (dependencies node) nodes) nodes0 nodes0"

definition buildGraph :: "spinxConfig \<Rightarrow> Graph" where
  "buildGraph cfg = build_dependents (init_nodes (spinxConfig.workspace cfg))"

text \<open>A loop over a list whose body may throw.\<close>

fun foldE :: "('a \<Rightarrow> 's \<Rightarrow> error + 's) \<Rightarrow> 'a list \<Rightarrow> 's \<Rightarrow> error + 's" where
  "foldE f [] s = Inr s"
| "foldE f (x # xs) s = (case f x s of Inl e \<Rightarrow> Inl e | Inr s' \<Rightarrow> foldE f xs s')"

text \<open>
  \<^verbatim>\<open>getParallelBatches\<close>: \<^verbatim>\<open>inDegree\<close> maps each alias to \<^verbatim>\<open>node.dependencies.size\<close>.
  While \<^verbatim>\<open>inDegree.size > 0\<close>: the batch collects the aliases of in-degree 0; an empty
  batch throws \<^verbatim>\<open>Unable to determine parallel batches\<close>; then each alias of the batch is
  deleted from \<^verbatim>\<open>inDegree\<close> and each of its dependents still present is decremented.
  \<^verbatim>\<open>this.nodes.get(alias)!\<close> on a missing alias would be a \<^verbatim>\<open>TypeError\<close>.
\<close>

definition init_inDegree :: "Graph \<Rightarrow> (string \<times> int) list" where
  "init_inDegree nodes =
     fold (\<lambda>(a, node) inDegree. AList.update a (int (length (dependencies node))) inDegree) nodes []"

definition zero_batch :: "(string \<times> int) list \<Rightarrow> string list" where
  "zero_batch inDegree = map fst (filter (\<lambda>(a, degree). degree = 0) inDegree)"

definition dec_present :: "string \<Rightarrow> (string \<times> int) list \<Rightarrow> (string \<times> int) list" where
  "dec_present dependent inDegree =
     (case map_of inDegree dependent of
        None \<Rightarrow> inDegree
      | Some degree \<Rightarrow> AList.update dependent (degree - 1) inDegree)"

definition remove_processed :: "Graph \<Rightarrow> string \<Rightarrow> (string \<times> int) list \<Rightarrow> error + (string \<times> int) list" where
  "remove_processed nodes a inDegree =
     (case map_of nodes a of
        None \<Rightarrow> Inl TypeError
      | Some node \<Rightarrow> Inr (fold dec_present (dependents node) (AList.delete a inDegree)))"

lemma keys_dec_present: "map fst (dec_present d m) = map fst m"
proof (cases "map_of m d")
  case None then show ?thesis by (simp add: dec_present_def)
next
  case (Some v)
  then have "d \<in> set (map fst m)" by (metis map_of_eq_None_iff option.distinct(1) set_map)
  with Some show ?thesis by (simp add: dec_present_def update_keys)
qed

lemma keys_fold_dec_present: "map fst (fold dec_present ds m) = map fst m"
  by (induction ds arbitrary: m) (simp_all add: keys_dec_present)

lemma keys_remove_processed:
  "remove_processed nodes a m = Inr m' \<Longrightarrow> map fst m' = removeAll a (map fst m)"
  by (auto simp: remove_processed_def keys_fold_dec_present delete_keys split: option.splits)

lemma length_remove_processed:
  "remove_processed nodes a m = Inr m' \<Longrightarrow> length m' \<le> length m"
  using keys_remove_processed[of nodes a m m']
  by (metis length_map length_removeAll_less_eq)

lemma length_remove_processed_less:
  "remove_processed nodes a m = Inr m' \<Longrightarrow> a \<in> fst ` set m \<Longrightarrow> length m' < length m"
  using keys_remove_processed[of nodes a m m']
  by (metis length_map set_map length_removeAll_less)

lemma length_foldE_remove_processed:
  "foldE (remove_processed nodes) as m = Inr m' \<Longrightarrow> length m' \<le> length m"
proof (induction as arbitrary: m)
  case Nil then show ?case by simp
next
  case (Cons a as)
  then show ?case by (fastforce split: sum.splits dest: length_remove_processed)
qed

lemma zero_batch_subset: "set (zero_batch m) \<subseteq> fst ` set m"
  by (auto simp: zero_batch_def)

function batches_loop :: "Graph \<Rightarrow> (string \<times> int) list \<Rightarrow> string list list \<Rightarrow> error + string list list" where
  "batches_loop nodes inDegree batches =
     (if length inDegree > 0 then
        let batch = zero_batch inDegree in
        if length batch = 0 then Inl UnableToDetermineBatches
        else
          (case foldE (remove_processed nodes) batch inDegree of
             Inl e \<Rightarrow> Inl e
           | Inr inDegree' \<Rightarrow> batches_loop nodes inDegree' (batches @ [batch]))
      else Inr batches)"
  by pat_completeness auto
termination
proof (relation "measure (\<lambda>(nodes, inDegree, batches). length inDegree)")
  show "wf (measure (\<lambda>(nodes, inDegree, batches). length inDegree))" by simp
next
  fix nodes :: Graph and inDegree :: "(string \<times> int) list" and batches :: "string list list" and batch inDegree'
  assume b: "batch = zero_batch inDegree" and ne: "length batch \<noteq> 0"
    and f: "foldE (remove_processed nodes) batch inDegree = Inr inDegree'"
  from ne obtain a as where batch: "batch = a # as" by (cases batch) auto
  with f obtain m1 where m1: "remove_processed nodes a inDegree = Inr m1"
     and rest: "foldE (remove_processed nodes) as m1 = Inr inDegree'"
    by (auto split: sum.splits)
  have "a \<in> set (zero_batch inDegree)" using b batch by (metis list.set_intros(1))
  then have "a \<in> fst ` set inDegree" using zero_batch_subset[of inDegree] by blast
  from length_remove_processed_less[OF m1 this] length_foldE_remove_processed[OF rest]
  show "((nodes, inDegree', batches @ [batch]), (nodes, inDegree, batches)) \<in> measure (\<lambda>(nodes, inDegree, batches). length inDegree)"
    by simp
qed

definition getParallelBatches :: "Graph \<Rightarrow> error + string list list" where
  "getParallelBatches nodes = batches_loop nodes (init_inDegree nodes) []"

text \<open>
  \<^verbatim>\<open>detectCycles\<close>: the closure \<^verbatim>\<open>dfs\<close> shares \<^verbatim>\<open>visited\<close>, \<^verbatim>\<open>recStack\<close> and \<^verbatim>\<open>path\<close>.
  It adds the alias to all three, returns \<^verbatim>\<open>false\<close> at once when the alias is no node,
  and otherwise walks the dependencies: an unvisited one is entered recursively, a visited
  one on \<^verbatim>\<open>recStack\<close> throws with the cycle \<^verbatim>\<open>[...path.slice(path.indexOf(dep)), dep]\<close>.
  After the loop the alias is removed from \<^verbatim>\<open>recStack\<close> and popped from \<^verbatim>\<open>path\<close>.
  \<open>dfs_deps\<close> is the loop over the dependencies; the outer loop \<open>detect_loop\<close> runs
  \<^verbatim>\<open>dfs\<close> from every key not yet visited.
\<close>

record DfsState =
  visited :: "string list"
  recStack :: "string list"
  path :: "string list"

definition indexOf :: "'a list \<Rightarrow> 'a \<Rightarrow> int" where
  "indexOf xs x = (if x \<in> set xs then int (length (takeWhile (\<lambda>y. y \<noteq> x) xs)) else - 1)"

definition slice_from :: "'a list \<Rightarrow> int \<Rightarrow> 'a list" where
  "slice_from xs start =
     (if start < 0 then drop (nat (max (int (length xs) + start) 0)) xs else drop (nat start) xs)"

definition enter :: "string \<Rightarrow> DfsState \<Rightarrow> DfsState" where
  "enter a st =
     st\<lparr>visited := set_add a (visited st), recStack := set_add a (recStack st),
        DfsState.path := DfsState.path st @ [a]\<rparr>"

definition leave :: "string \<Rightarrow> DfsState \<Rightarrow> DfsState" where
  "leave a st =
     st\<lparr>recStack := removeAll a (recStack st), DfsState.path := butlast (DfsState.path st)\<rparr>"

function dfs :: "Graph \<Rightarrow> string \<Rightarrow> DfsState \<Rightarrow> error + (bool \<times> DfsState)"
  and dfs_deps :: "Graph \<Rightarrow> string list \<Rightarrow> DfsState \<Rightarrow> error + (bool \<times> DfsState)"
where
  "dfs nodes a st =
     (case map_of nodes a of
        None \<Rightarrow> Inr (False, enter a st)
      | Some node \<Rightarrow>
          (case dfs_deps nodes (dependencies node) (enter a st) of
             Inl e \<Rightarrow> Inl e
           | Inr (found, st') \<Rightarrow> if found then Inr (True, st') else Inr (False, leave a st')))"
| "dfs_deps nodes [] st = Inr (False, st)"
| "dfs_deps nodes (dep # deps) st =
     (if dep \<notin> set (visited st) then
        (case dfs nodes dep st of
           Inl e \<Rightarrow> Inl e
         | Inr (found, st') \<Rightarrow> if found then Inr (True, st') else dfs_deps nodes deps st')
      else if dep \<in> set (recStack st) then
        Inl (CircularDependency
              (slice_from (DfsState.path st) (indexOf (DfsState.path st) dep) @ [dep]))
      else dfs_deps nodes deps st)"
  by pat_completeness auto


lemma visited_enter: "set (visited (enter a st)) = insert a (set (visited st))"
  by (auto simp: enter_def set_add_def)

lemma visited_leave: "visited (leave a st) = visited st"
  by (simp add: leave_def)

lemma dfs_visited_mono_dom:
  "dfs_dfs_deps_dom (Inl (nodes, a, st)) \<Longrightarrow>
     (\<forall>b st'. dfs nodes a st = Inr (b, st') \<longrightarrow> set (visited st) \<subseteq> set (visited st'))"
  "dfs_dfs_deps_dom (Inr (nodes, deps, st)) \<Longrightarrow>
     (\<forall>b st'. dfs_deps nodes deps st = Inr (b, st') \<longrightarrow> set (visited st) \<subseteq> set (visited st'))"
proof (induction rule: dfs_dfs_deps.pinduct)
  case (1 nodes a st)
  show ?case
  proof (intro allI impI)
    fix b st' assume r: "dfs nodes a st = Inr (b, st')"
    show "set (visited st) \<subseteq> set (visited st')"
    proof (cases "map_of nodes a")
      case None
      with r "1.hyps" show ?thesis by (auto simp: dfs.psimps visited_enter)
    next
      case (Some node)
      with r "1.hyps" obtain f st2 where
        d: "dfs_deps nodes (dependencies node) (enter a st) = Inr (f, st2)"
        and v: "visited st' = visited st2"
        by (auto simp: dfs.psimps visited_leave split: sum.splits if_splits)
      from "1.IH"[OF Some] d have "set (visited (enter a st)) \<subseteq> set (visited st2)" by blast
      with v show ?thesis by (auto simp: visited_enter)
    qed
  qed
next
  case (2 nodes st)
  then show ?case by (simp add: dfs_deps.psimps)
next
  case (3 nodes dep deps st)
  show ?case
  proof (intro allI impI)
    fix b st' assume r: "dfs_deps nodes (dep # deps) st = Inr (b, st')"
    show "set (visited st) \<subseteq> set (visited st')"
    proof (cases "dep \<notin> set (visited st)")
      case True
      with r "3.hyps" obtain f st1 where d: "dfs nodes dep st = Inr (f, st1)"
        by (auto simp: dfs_deps.psimps split: sum.splits)
      from "3.IH"(1)[OF True] d have m1: "set (visited st) \<subseteq> set (visited st1)" by blast
      show ?thesis
      proof (cases f)
        case True
        with r d \<open>dep \<notin> set (visited st)\<close> "3.hyps" have "st' = st1"
          by (simp add: dfs_deps.psimps)
        with m1 show ?thesis by simp
      next
        case False
        with r d \<open>dep \<notin> set (visited st)\<close> "3.hyps" have "dfs_deps nodes deps st1 = Inr (b, st')"
          by (simp add: dfs_deps.psimps)
        with "3.IH"(2)[OF \<open>dep \<notin> set (visited st)\<close> d refl False] m1 show ?thesis by blast
      qed
    next
      case False
      with r "3.hyps" have nr: "dep \<notin> set (recStack st)" and "dfs_deps nodes deps st = Inr (b, st')"
        by (auto simp: dfs_deps.psimps split: if_splits)
      with "3.IH"(3)[OF False nr] show ?thesis by blast
    qed
  qed
qed

definition unvisited :: "Graph \<Rightarrow> DfsState \<Rightarrow> nat" where
  "unvisited nodes st = card (fst ` set nodes - set (visited st))"

lemma unvisited_mono: "set (visited st) \<subseteq> set (visited st') \<Longrightarrow> unvisited nodes st' \<le> unvisited nodes st"
  unfolding unvisited_def by (intro card_mono) auto

lemma unvisited_enter:
  "a \<in> fst ` set nodes \<Longrightarrow> a \<notin> set (visited st) \<Longrightarrow> unvisited nodes (enter a st) < unvisited nodes st"
  unfolding unvisited_def by (intro psubset_card_mono) (auto simp: visited_enter)

termination dfs
  apply (relation "inv_image (less_than <*lex*> less_than <*lex*> less_than)
    (\<lambda>x. case x of
       Inl (nodes, a, st) \<Rightarrow>
         (if a \<in> fst ` set nodes then (unvisited nodes (enter a st), 1::nat, 0::nat) else (0, 0, 0))
     | Inr (nodes, deps, st) \<Rightarrow> (unvisited nodes st, 0, length deps))")
proof goal_cases
  case 1
  show ?case by (intro wf_inv_image wf_lex_prod wf_less_than)
next
  case (2 nodes a st node)
  then have "a \<in> fst ` set nodes" by (metis map_of_eq_None_iff option.distinct(1))
  then show ?case by simp
next
  case (3 nodes dep deps st)
  then show ?case
    using unvisited_enter[of dep nodes st] by auto
next
  case (4 nodes dep deps st b x y)
  then have "set (visited st) \<subseteq> set (visited y)"
    using dfs_visited_mono_dom(1)[of nodes dep st] by auto
  from unvisited_mono[OF this, of nodes] show ?case by auto
next
  case (5 nodes dep deps st)
  then show ?case by simp
qed

declare dfs.simps [simp del] dfs_deps.simps [simp del]

fun detect_loop :: "Graph \<Rightarrow> string list \<Rightarrow> DfsState \<Rightarrow> error + DfsState" where
  "detect_loop nodes [] st = Inr st"
| "detect_loop nodes (a # rest) st =
     (if a \<notin> set (visited st) then
        (case dfs nodes a st of
           Inl e \<Rightarrow> Inl e
         | Inr (found, st') \<Rightarrow> detect_loop nodes rest st')
      else detect_loop nodes rest st)"

definition detectCycles :: "Graph \<Rightarrow> error + unit" where
  "detectCycles nodes =
     (case detect_loop nodes (map fst nodes) \<lparr>visited = [], recStack = [], path = []\<rparr> of
        Inl e \<Rightarrow> Inl e
      | Inr st \<Rightarrow> Inr ())"

definition DependencyGraph :: "spinxConfig \<Rightarrow> error + Graph" where
  "DependencyGraph cfg =
     (let nodes = buildGraph cfg in
      case detectCycles nodes of Inl e \<Rightarrow> Inl e | Inr u \<Rightarrow> Inr nodes)"

text \<open>
  The command line always runs \<^verbatim>\<open>validateWorkspaces(config)\<close> and then
  \<^verbatim>\<open>new DependencyGraph(config)\<close>.
\<close>

definition loadGraph :: "(string \<Rightarrow> bool) \<Rightarrow> spinxConfig \<Rightarrow> error + Graph" where
  "loadGraph existsSync cfg =
     (case validateWorkspaces existsSync cfg of
        Inl e \<Rightarrow> Inl e
      | Inr u \<Rightarrow> DependencyGraph cfg)"

text \<open>
  \<^verbatim>\<open>getTopologicalOrder\<close>: the first loop sets each in-degree to
  \<^verbatim>\<open>node.dependencies.size\<close> and queues the aliases of size 0. The queue loop shifts an
  alias, appends it to the result and, for each of its dependents, stores
  \<^verbatim>\<open>inDegree.get(dependent)! - 1\<close> (\<^verbatim>\<open>NaN\<close> when the entry is missing) and queues the
  dependent when the new degree is 0. A result shorter than the node map throws
  \<^verbatim>\<open>Graph contains cycles\<close>.
\<close>

datatype jsnum = Num int | NaN

definition minus_one :: "jsnum option \<Rightarrow> jsnum" where
  "minus_one v = (case v of Some (Num n) \<Rightarrow> Num (n - 1) | _ \<Rightarrow> NaN)"

fun init_degree ::
  "string \<times> GraphNode \<Rightarrow> (string \<times> jsnum) list \<times> string list \<Rightarrow> (string \<times> jsnum) list \<times> string list" where
  "init_degree (a, node) (inDegree, queue) =
     (AList.update a (Num (int (length (dependencies node)))) inDegree,
      if length (dependencies node) = 0 then queue @ [a] else queue)"

definition topo_init :: "Graph \<Rightarrow> (string \<times> jsnum) list \<times> string list" where
  "topo_init nodes = fold init_degree nodes ([], [])"

fun dec_dependent ::
  "string \<Rightarrow> (string \<times> jsnum) list \<times> string list \<Rightarrow> (string \<times> jsnum) list \<times> string list" where
  "dec_dependent dependent (inDegree, queue) =
     (let degree = minus_one (map_of inDegree dependent) in
      (AList.update dependent degree inDegree,
       if degree = Num 0 then queue @ [dependent] else queue))"

definition positive :: "(string \<times> jsnum) list \<Rightarrow> string set" where
  "positive inDegree = {k. \<exists>n>0. map_of inDegree k = Some (Num n)}"

lemma finite_positive: "finite (positive m)"
proof -
  have "positive m \<subseteq> fst ` set m"
    unfolding positive_def by (auto simp: image_iff dest!: map_of_SomeD) force
  then show ?thesis by (rule finite_subset) simp
qed

lemma dec_dependent_measure:
  "dec_dependent d (m, q) = (m', q') \<Longrightarrow>
     card (positive m') + length q' = card (positive m) + length q"
proof -
  assume h: "dec_dependent d (m, q) = (m', q')"
  show ?thesis
  proof (cases "map_of m d = Some (Num 1)")
    case True
    with h have m': "m' = AList.update d (Num 0) m" and q': "q' = q @ [d]"
      by (auto simp: minus_one_def Let_def)
    have "positive m' = positive m - {d}"
      unfolding positive_def m' by (auto simp: update_conv')
    moreover have "d \<in> positive m" using True by (simp add: positive_def)
    ultimately have "card (positive m') = card (positive m) - 1" "card (positive m) > 0"
      using finite_positive[of m] by (auto simp: card_gt_0_iff)
    with q' show ?thesis by simp
  next
    case False
    then have nz: "minus_one (map_of m d) \<noteq> Num 0"
      by (auto simp: minus_one_def split: option.splits jsnum.splits)
    with h have m': "m' = AList.update d (minus_one (map_of m d)) m" and q': "q' = q"
      by (auto simp: Let_def)
    have "positive m' = positive m"
      unfolding positive_def m'
      by (auto simp: update_conv' minus_one_def split: option.splits jsnum.splits if_splits)
        (use False in force)+
    with q' show ?thesis by simp
  qed
qed

lemma fold_dec_dependent_measure:
  "fold dec_dependent ds (m, q) = (m', q') \<Longrightarrow>
     card (positive m') + length q' = card (positive m) + length q"
proof (induction ds arbitrary: m q)
  case Nil then show ?case by simp
next
  case (Cons d ds)
  obtain m1 q1 where s: "dec_dependent d (m, q) = (m1, q1)" by (cases "dec_dependent d (m, q)")
  with Cons.prems have "fold dec_dependent ds (m1, q1) = (m', q')" by simp
  from Cons.IH[OF this] dec_dependent_measure[OF s] show ?case by simp
qed

function topo_loop ::
  "Graph \<Rightarrow> (string \<times> jsnum) list \<Rightarrow> string list \<Rightarrow> string list \<Rightarrow> error + string list" where
  "topo_loop nodes inDegree [] result = Inr result"
| "topo_loop nodes inDegree (a # queue) result =
     (case map_of nodes a of
        None \<Rightarrow> Inl TypeError
      | Some node \<Rightarrow>
          (case fold dec_dependent (dependents node) (inDegree, queue) of
             (inDegree', queue') \<Rightarrow> topo_loop nodes inDegree' queue' (result @ [a])))"
  by pat_completeness auto
termination
proof (relation "measure (\<lambda>(nodes, inDegree, queue, result). card (positive inDegree) + length queue)",
    goal_cases)
  case 1 show ?case by simp
next
  case (2 nodes inDegree a queue result node inDegree' queue')
  then have "fold dec_dependent (dependents node) (inDegree, queue) = (inDegree', queue')" by simp
  from fold_dec_dependent_measure[OF this] show ?case by simp
qed

definition getTopologicalOrder :: "Graph \<Rightarrow> error + string list" where
  "getTopologicalOrder nodes =
     (case topo_init nodes of
        (inDegree, queue) \<Rightarrow>
          (case topo_loop nodes inDegree queue [] of
             Inl e \<Rightarrow> Inl e
           | Inr result \<Rightarrow>
               if length result \<noteq> length nodes then Inl GraphContainsCycles else Inr result))"

text \<open>
  \<^verbatim>\<open>getAffected\<close>: \<^verbatim>\<open>affected\<close> starts as \<^verbatim>\<open>new Set(changedAliases)\<close>, the queue as a copy
  of \<^verbatim>\<open>changedAliases\<close>. Each alias shifted from the queue that is a node adds its
  dependents not yet in \<^verbatim>\<open>affected\<close> to the set and to the queue.
\<close>

fun add_affected :: "string \<Rightarrow> string list \<times> string list \<Rightarrow> string list \<times> string list" where
  "add_affected dependent (affected, queue) =
     (if dependent \<notin> set affected then (set_add dependent affected, queue @ [dependent])
      else (affected, queue))"

definition all_dependents :: "Graph \<Rightarrow> string set" where
  "all_dependents nodes = (\<Union>(a, node) \<in> set nodes. set (dependents node))"

lemma fold_add_affected:
  "fold add_affected ds (af, q) = (af', q') \<Longrightarrow>
     set af' = set af \<union> set ds \<and> (set af' = set af \<longrightarrow> q' = q)"
proof (induction ds arbitrary: af q)
  case Nil then show ?case by simp
next
  case (Cons d ds)
  show ?case
  proof (cases "d \<in> set af")
    case True
    with Cons.prems have "fold add_affected ds (af, q) = (af', q')" by simp
    from Cons.IH[OF this] True show ?thesis by auto
  next
    case False
    with Cons.prems have "fold add_affected ds (af @ [d], q @ [d]) = (af', q')"
      by (simp add: set_add_def)
    from Cons.IH[OF this] False show ?thesis by auto
  qed
qed

function affected_loop :: "Graph \<Rightarrow> string list \<Rightarrow> string list \<Rightarrow> string list" where
  "affected_loop nodes affected [] = affected"
| "affected_loop nodes affected (a # queue) =
     (case map_of nodes a of
        None \<Rightarrow> affected_loop nodes affected queue
      | Some node \<Rightarrow>
          (case fold add_affected (dependents node) (affected, queue) of
             (affected', queue') \<Rightarrow> affected_loop nodes affected' queue'))"
  by pat_completeness auto
termination
proof (relation "inv_image (less_than <*lex*> less_than)
    (\<lambda>(nodes, affected, queue). (card (all_dependents nodes - set affected), length queue))",
    goal_cases)
  case 1 show ?case by (intro wf_inv_image wf_lex_prod wf_less_than)
next
  case (2 nodes affected a queue)
  then show ?case by simp
next
  case (3 nodes affected a queue node affected' queue')
  then have f: "fold add_affected (dependents node) (affected, queue) = (affected', queue')" by simp
  from 3 have "(a, node) \<in> set nodes" by (auto dest: map_of_SomeD)
  then have sub: "set (dependents node) \<subseteq> all_dependents nodes" by (auto simp: all_dependents_def)
  have fin: "finite (all_dependents nodes)" by (auto simp: all_dependents_def)
  from fold_add_affected[OF f] have s: "set affected' = set affected \<union> set (dependents node)"
    and e: "set affected' = set affected \<longrightarrow> queue' = queue" by auto
  show ?case
  proof (cases "set affected' = set affected")
    case True
    with e show ?thesis by simp
  next
    case False
    with s sub have "all_dependents nodes - set affected' \<subset> all_dependents nodes - set affected"
      by auto
    from psubset_card_mono[OF _ this] fin show ?thesis by simp
  qed
qed

definition getAffected :: "Graph \<Rightarrow> string list \<Rightarrow> string list" where
  "getAffected nodes changedAliases = affected_loop nodes (new_Set changedAliases) changedAliases"

section \<open>Package resolver (resolver.ts): analyze\<close>

text \<open>
  The file system is outside the program. \<open>readPackageJson fs dir\<close> is the parsed
  \<^verbatim>\<open>package.json\<close> of directory \<open>dir\<close>, \<open>None\<close> when \<^verbatim>\<open>existsSync\<close> finds none;
  \<open>resolveInstalledVersion fs dir pkgName versionRange\<close> is what the method of that name
  finds by walking the installed tree from \<open>dir\<close> (\<open>None\<close> is \<^verbatim>\<open>null\<close>).
\<close>

record FileSystem =
  readPackageJson :: "string \<Rightarrow> PackageJson option"
  resolveInstalledVersion :: "string \<Rightarrow> string \<Rightarrow> string \<Rightarrow> Resolution option"

record PackageResolver =
  config :: spinxConfig
  resolutionMap :: ResolutionMap
  conflicts :: "ConflictInfo list"
  rootDir :: string

type_synonym AllPackages = "(string \<times> (string \<times> string list) list) list"

text \<open>\<^verbatim>\<open>new PackageResolver(config, rootDir)\<close>\<close>

definition new_PackageResolver :: "spinxConfig \<Rightarrow> string \<Rightarrow> PackageResolver" where
  "new_PackageResolver cfg root =
     \<lparr>PackageResolver.config = cfg, resolutionMap = Map.empty, conflicts = [], rootDir = root\<rparr>"

text \<open>\<^verbatim>\<open>{...pkgJson.dependencies, ...pkgJson.devDependencies}\<close>, as \<^verbatim>\<open>Object.entries\<close> lists it.\<close>

definition spread :: "(string \<times> string) list option \<Rightarrow> (string \<times> string) list \<Rightarrow> (string \<times> string) list" where
  "spread obj acc =
     fold (\<lambda>(k, v). AList.update k v) (case obj of None \<Rightarrow> [] | Some kvs \<Rightarrow> kvs) acc"

definition allDeps :: "PackageJson \<Rightarrow> (string \<times> string) list" where
  "allDeps pkgJson = spread (devDependencies pkgJson) (spread (PackageJson.dependencies pkgJson) [])"

text \<open>
  \<^verbatim>\<open>if (!allPackages.has(pkgName)) allPackages.set(pkgName, new Map());\<close>
  \<^verbatim>\<open>const versionMap = allPackages.get(pkgName)!;\<close>
  \<^verbatim>\<open>if (!versionMap.has(v)) versionMap.set(v, []);\<close>
  \<^verbatim>\<open>versionMap.get(v)!.push(alias);\<close>
  The inner map and the array are changed in place, so the outer map sees the change.
\<close>

definition track :: "string \<Rightarrow> string \<Rightarrow> string \<Rightarrow> AllPackages \<Rightarrow> AllPackages" where
  "track a pkgName v allPackages =
     (let allPackages1 =
            (if map_of allPackages pkgName = None then AList.update pkgName [] allPackages
             else allPackages);
          versionMap = (case map_of allPackages1 pkgName of None \<Rightarrow> [] | Some vm \<Rightarrow> vm);
          versionMap1 =
            (if map_of versionMap v = None then AList.update v [] versionMap else versionMap);
          users = (case map_of versionMap1 v of None \<Rightarrow> [] | Some us \<Rightarrow> us)
      in AList.update pkgName (AList.update v (users @ [a]) versionMap1) allPackages1)"

text \<open>
  One turn of the loop over \<^verbatim>\<open>Object.entries(allDeps)\<close>; \<open>entry\<close> is
  \<^verbatim>\<open>this.resolutionMap[alias]\<close>, which the loop fills in place.
\<close>

fun analyze_dep ::
  "FileSystem \<Rightarrow> Workspace \<Rightarrow> string \<Rightarrow> string \<times> string
    \<Rightarrow> (string \<rightharpoonup> Resolution) \<times> AllPackages \<Rightarrow> (string \<rightharpoonup> Resolution) \<times> AllPackages" where
  "analyze_dep fs ws a (pkgName, versionRange) (entry, allPackages) =
     (if startsWith versionRange ''workspace:'' then (entry, allPackages)
      else
        (case resolveInstalledVersion fs (Workspace.path ws) pkgName versionRange of
           None \<Rightarrow> (entry, allPackages)
         | Some resolved \<Rightarrow>
             (entry(pkgName \<mapsto> resolved),
              track a pkgName (Resolution.version resolved) allPackages)))"

text \<open>One turn of the loop over \<^verbatim>\<open>this.config.workspace\<close>.\<close>

fun analyze_workspace ::
  "FileSystem \<Rightarrow> Workspace \<Rightarrow> ResolutionMap \<times> AllPackages \<Rightarrow> ResolutionMap \<times> AllPackages" where
  "analyze_workspace fs ws (rm, allPackages) =
     (case readPackageJson fs (Workspace.path ws) of
        None \<Rightarrow> (rm, allPackages)
      | Some pkgJson \<Rightarrow>
          (case fold (analyze_dep fs ws (identity ws)) (allDeps pkgJson) (Map.empty, allPackages) of
             (entry, allPackages') \<Rightarrow> (rm(identity ws \<mapsto> entry), allPackages')))"

text \<open>\<^verbatim>\<open>for (const [pkgName, versionMap] of allPackages) if (versionMap.size > 1) conflicts.push(...)\<close>\<close>

definition detect_conflicts :: "AllPackages \<Rightarrow> ConflictInfo list" where
  "detect_conflicts allPackages =
     map (\<lambda>(pkgName, versionMap). \<lparr>packageName = pkgName, versions = versionMap\<rparr>)
       (filter (\<lambda>(pkgName, versionMap). length versionMap > 1) allPackages)"

definition analyze :: "FileSystem \<Rightarrow> PackageResolver \<Rightarrow> PackageResolver" where
  "analyze fs r =
     (case fold (analyze_workspace fs) (spinxConfig.workspace (PackageResolver.config r))
             (resolutionMap r, []) of
        (rm, allPackages) \<Rightarrow>
          r\<lparr>resolutionMap := rm, conflicts := conflicts r @ detect_conflicts allPackages\<rparr>)"

section \<open>Generated resolver hook (resolver.ts): findWorkspace\<close>

text \<open>
  \<^verbatim>\<open>workspaceRoots = config.workspace.map(ws => ({alias: ws.alias || ws.path, path: ws.path}))\<close>
\<close>

definition workspaceRoots :: "spinxConfig \<Rightarrow> WorkspaceRoot list" where
  "workspaceRoots cfg =
     map (\<lambda>ws. \<lparr>WorkspaceRoot.alias = identity ws, WorkspaceRoot.path = Workspace.path ws\<rparr>)
       (spinxConfig.workspace cfg)"

text \<open>
  \<^verbatim>\<open>for (const ws of workspaceRoots) { if (filePath.startsWith(ws.path)) return ws.alias; } return null;\<close>
\<close>

fun findWorkspace :: "WorkspaceRoot list \<Rightarrow> string \<Rightarrow> string option" where
  "findWorkspace [] filePath = None"
| "findWorkspace (ws # rest) filePath =
     (if startsWith filePath (WorkspaceRoot.path ws) then Some (WorkspaceRoot.alias ws)
      else findWorkspace rest filePath)"

text \<open>
  The specification's reading of the same lookup, kept apart for comparison: among the
  roots that are a prefix of the file path, the one with the longest root path (the
  earliest of them on a tie).
\<close>

definition spec_longestPrefixWorkspace :: "WorkspaceRoot list \<Rightarrow> string \<Rightarrow> string option" where
  "spec_longestPrefixWorkspace roots filePath =
     (case filter (\<lambda>ws. startsWith filePath (WorkspaceRoot.path ws)) roots of
        [] \<Rightarrow> None
      | m # ms \<Rightarrow>
          Some (WorkspaceRoot.alias
            (fold (\<lambda>ws best.
                if length (WorkspaceRoot.path best) < length (WorkspaceRoot.path ws) then ws else best)
              ms m)))"

section \<open>Task runner (runner.ts): runTask\<close>

text \<open>
  The process executor and the clock are outside the program: \<open>execa host command cwd env\<close>
  is what \<^verbatim>\<open>await execa(command, {cwd, shell: true, stdio: "inherit", env})\<close> inside the
  \<^verbatim>\<open>try\<close> block yields, the error caught (\<open>None\<close> when the call returns) and the elapsed
  milliseconds. \<open>command\<close> is whatever \<open>getCommand\<close> returned, a string or an inherited
  value that is no string. \<open>process_env\<close> is \<^verbatim>\<open>process.env\<close>.
\<close>

type_synonym Env = "string \<rightharpoonup> string"

record ExecOutcome =
  exitError :: "string option"
  elapsed :: nat

record Host =
  execa :: "jsval \<Rightarrow> string \<Rightarrow> Env \<Rightarrow> ExecOutcome"
  process_env :: Env

record TaskRunner =
  config :: spinxConfig
  graph :: Graph
  nodeOptions :: string

text \<open>\<^verbatim>\<open>this.nodes.get(alias)?.workspace\<close>\<close>

definition getWorkspace :: "Graph \<Rightarrow> string \<Rightarrow> Workspace option" where
  "getWorkspace nodes a = map_option GraphNode.workspace (map_of nodes a)"

text \<open>
  \<^verbatim>\<open>env.NODE_OPTIONS = this.nodeOptions + (env.NODE_OPTIONS ? ` ${env.NODE_OPTIONS}` : "")\<close>,
  done only when \<^verbatim>\<open>this.nodeOptions\<close> is not empty.
\<close>

definition task_env :: "Host \<Rightarrow> TaskRunner \<Rightarrow> Env" where
  "task_env host runner =
     (if nodeOptions runner \<noteq> [] then
        (process_env host)(''NODE_OPTIONS'' \<mapsto>
           nodeOptions runner @
             (if truthy (process_env host ''NODE_OPTIONS'')
              then '' '' @ the (process_env host ''NODE_OPTIONS'') else []))
      else process_env host)"

definition runTask :: "Host \<Rightarrow> TaskRunner \<Rightarrow> string \<Rightarrow> string \<Rightarrow> error + TaskResult" where
  "runTask host runner a commandType =
     (case getWorkspace (graph runner) a of
        None \<Rightarrow> Inl (WorkspaceNotFound a)
      | Some ws \<Rightarrow>
          let cmd = getCommand ws commandType (config runner) in
          if \<not> truthy_val cmd then
            Inr \<lparr>TaskResult.workspace = a, success = True, duration = 0, error = None\<rparr>
          else
            let out = execa host (the cmd) (Workspace.path ws) (task_env host runner) in
            (case exitError out of
               None \<Rightarrow>
                 Inr \<lparr>TaskResult.workspace = a, success = True, duration = elapsed out,
                      error = None\<rparr>
             | Some err \<Rightarrow>
                 Inr \<lparr>TaskResult.workspace = a, success = False, duration = elapsed out,
                      error = Some err\<rparr>))"

type_synonym Results = "(string \<times> TaskResult) list"

fun run_tasks :: "Host \<Rightarrow> TaskRunner \<Rightarrow> string \<Rightarrow> string list \<Rightarrow> Results \<Rightarrow> error + Results" where
  "run_tasks host runner commandType [] results = Inr results"
| "run_tasks host runner commandType (a # aliases) results =
     (case runTask host runner a commandType of
        Inl e \<Rightarrow> Inl e
      | Inr result \<Rightarrow> run_tasks host runner commandType aliases (AList.update a result results))"

definition runBatch :: "Host \<Rightarrow> TaskRunner \<Rightarrow> string list \<Rightarrow> string \<Rightarrow> nat \<Rightarrow> error + Results" where
  "runBatch host runner aliases commandType limit = run_tasks host runner commandType aliases []"

definition apply_filter :: "string list option \<Rightarrow> string list \<Rightarrow> string list" where
  "apply_filter fltr batch =
     (case fltr of None \<Rightarrow> batch | Some f \<Rightarrow> filter (\<lambda>a. a \<in> set f) batch)"

definition merge_results :: "Results \<Rightarrow> Results \<Rightarrow> Results" where
  "merge_results batchResults results = fold (\<lambda>(a, result). AList.update a result) batchResults results"

text \<open>\<^verbatim>\<open>Array.from(batchResults.values()).filter((r) => !r.success)\<close>\<close>

definition failed :: "Results \<Rightarrow> TaskResult list" where
  "failed batchResults = filter (\<lambda>r. \<not> success r) (map snd batchResults)"

record RunState =
  results :: Results
  started :: "string list"

fun run_batches ::
  "Host \<Rightarrow> TaskRunner \<Rightarrow> string \<Rightarrow> string list option \<Rightarrow> nat \<Rightarrow> string list list \<Rightarrow> RunState
    \<Rightarrow> (error + Results) \<times> string list" where
  "run_batches host runner commandType fltr limit [] st = (Inr (results st), started st)"
| "run_batches host runner commandType fltr limit (b # batches) st =
     (let batch = apply_filter fltr b in
      if length batch = 0 then run_batches host runner commandType fltr limit batches st
      else
        (case runBatch host runner batch commandType limit of
           Inl e \<Rightarrow> (Inl e, started st @ batch)
         | Inr batchResults \<Rightarrow>
             let st' = \<lparr>results = merge_results batchResults (results st),
                        started = started st @ batch\<rparr> in
             if length (failed batchResults) > 0
             then (Inl (RunFailed commandType), started st')
             else run_batches host runner commandType fltr limit batches st'))"

text \<open>\<^verbatim>\<open>this.config.concurrency || this.config.workspace.length\<close>\<close>

definition concurrency_limit :: "spinxConfig \<Rightarrow> nat" where
  "concurrency_limit cfg =
     (case concurrency cfg of
        None \<Rightarrow> length (spinxConfig.workspace cfg)
      | Some c \<Rightarrow> if c \<noteq> 0 then c else length (spinxConfig.workspace cfg))"

definition runAll ::
  "Host \<Rightarrow> TaskRunner \<Rightarrow> string \<Rightarrow> string list option \<Rightarrow> (error + Results) \<times> string list" where
  "runAll host runner commandType fltr =
     (case getParallelBatches (graph runner) of
        Inl e \<Rightarrow> (Inl e, [])
      | Inr batches \<Rightarrow>
          run_batches host runner commandType fltr (concurrency_limit (TaskRunner.config runner))
            batches \<lparr>results = [], started = []\<rparr>)"

definition runAffected ::
  "Host \<Rightarrow> TaskRunner \<Rightarrow> string list \<Rightarrow> string \<Rightarrow> (error + Results) \<times> string list" where
  "runAffected host runner changedAliases commandType =
     runAll host runner commandType (Some (getAffected (graph runner) changedAliases))"

section \<open>Command resolution\<close>

lemma not_truthy_val_iff: "\<not> truthy_val c \<longleftrightarrow> c = None \<or> c = Some (Str [])"
  by (cases c) (auto simp: truthy_val_def split: jsval.splits)

text \<open>
  A name that is no own key of the workspace's commands object but a property of
  \<^verbatim>\<open>Object.prototype\<close> resolves to the inherited value, so \<open>runTask\<close> does not take its
  no-command branch for it and hands the value to \<^verbatim>\<open>execa\<close>.
\<close>

lemma getCommand_inherited:
  "command ws = Some m \<Longrightarrow> m commandType = None \<Longrightarrow> commandType \<in> set Object_prototype \<Longrightarrow>
   getCommand ws commandType cfg = Some (Inherited commandType)"
  by (simp add: getCommand_def lookup_command_def truthy_val_def)


definition ex_override_ws :: Workspace where
  "ex_override_ws =
     \<lparr>Workspace.path = ''/repo/cart'', alias = Some ''@cart'', dependsOn = None,
      command = Some [''build'' \<mapsto> []]\<rparr>"

definition ex_override_cfg :: spinxConfig where
  "ex_override_cfg =
     \<lparr>concurrency = None, spinxConfig.workspace = [ex_override_ws],
      defaults = Some [''build'' \<mapsto> ''npm run build'', ''live'' \<mapsto> []]\<rparr>"

definition ex_host :: Host where
  "ex_host =
     \<lparr>execa = (\<lambda>cmd cwd env. \<lparr>exitError = None, elapsed = 5\<rparr>), process_env = Map.empty\<rparr>"

definition ex_override_runner :: TaskRunner where
  "ex_override_runner =
     \<lparr>TaskRunner.config = ex_override_cfg,
      graph = [(''@cart'', \<lparr>GraphNode.workspace = ex_override_ws, dependencies = [], dependents = []\<rparr>)],
      nodeOptions = []\<rparr>"


text \<open>
  \<^verbatim>\<open>execa\<close> rejects a command that is no string. With a host that does so, the command
  name \<^verbatim>\<open>constructor\<close>, which neither commands object has as a key, gives a failed
  result: the inherited function is truthy, so the task is started and fails.
\<close>

definition ex_strict_host :: Host where
  "ex_strict_host =
     \<lparr>execa = (\<lambda>cmd cwd env.
         case cmd of
           Str s \<Rightarrow> \<lparr>exitError = None, elapsed = 5\<rparr>
         | Inherited n \<Rightarrow> \<lparr>exitError = Some ''TypeError'', elapsed = 0\<rparr>),
      process_env = Map.empty\<rparr>"

lemma runTask_inherited_name_fails:
  "getCommand ex_override_ws ''constructor'' ex_override_cfg = Some (Inherited ''constructor'')
   \<and> runTask ex_strict_host ex_override_runner ''@cart'' ''constructor'' =
       Inr \<lparr>TaskResult.workspace = ''@cart'', success = False, duration = 0,
            error = Some ''TypeError''\<rparr>"
  by (simp add: runTask_def getWorkspace_def getCommand_def lookup_command_def truthy_val_def
      Object_prototype_def ex_override_runner_def ex_override_ws_def ex_override_cfg_def
      ex_strict_host_def task_env_def)

section \<open>Caller identification in the resolver hook\<close>

lemma findWorkspace_filter:
  "findWorkspace roots filePath =
     (case filter (\<lambda>ws. startsWith filePath (WorkspaceRoot.path ws)) roots of
        [] \<Rightarrow> None | m # ms \<Rightarrow> Some (WorkspaceRoot.alias m))"
  by (induction roots) auto

lemma startsWith_both:
  "startsWith s p \<Longrightarrow> startsWith s q \<Longrightarrow> length p \<le> length q \<Longrightarrow> startsWith q p"
proof -
  assume a: "startsWith s p" "startsWith s q" "length p \<le> length q"
  then have "take (length p) q = take (length p) (take (length q) s)" by (simp add: startsWith_def)
  also have "\<dots> = take (length p) s" using a(3) by (simp add: min_def)
  finally show ?thesis using a(1) by (simp add: startsWith_def)
qed

lemma fold_longest_same_length:
  "\<forall>ws \<in> set ms. length (WorkspaceRoot.path ws) \<le> length (WorkspaceRoot.path m) \<Longrightarrow>
   fold (\<lambda>ws best. if length (WorkspaceRoot.path best) < length (WorkspaceRoot.path ws) then ws else best) ms m = m"
  by (induction ms) auto

definition ex_roots :: "WorkspaceRoot list" where
  "ex_roots =
     [\<lparr>WorkspaceRoot.alias = ''@pkg'', WorkspaceRoot.path = ''/repo/pkg''\<rparr>,
      \<lparr>WorkspaceRoot.alias = ''@sub'', WorkspaceRoot.path = ''/repo/pkg/sub''\<rparr>]"


text \<open>
  Claim C3, as stated, fails: with the roots \<^verbatim>\<open>/repo/pkg\<close> (listed first) and
  \<^verbatim>\<open>/repo/pkg/sub\<close>, a file under the deeper root is attributed to the shallower one,
  while the longest-prefix match is the deeper one.
\<close>

theorem findWorkspace_not_longest_prefix:
  "findWorkspace ex_roots ''/repo/pkg/sub/index.js'' = Some ''@pkg''
   \<and> spec_longestPrefixWorkspace ex_roots ''/repo/pkg/sub/index.js'' = Some ''@sub''"
  by (simp add: ex_roots_def spec_longestPrefixWorkspace_def startsWith_def)

text \<open>
  Claim C3, amended. The calling workspace is the first workspace, in declaration order,
  whose root path is a string prefix of the caller's file path. When no workspace root
  is a proper prefix of another workspace root, this is also the longest-prefix match.
\<close>

theorem findWorkspace_first_prefix_match:
  "findWorkspace roots filePath =
     (case filter (\<lambda>ws. startsWith filePath (WorkspaceRoot.path ws)) roots of
        [] \<Rightarrow> None | m # ms \<Rightarrow> Some (WorkspaceRoot.alias m))
   \<and> ((\<forall>r1 \<in> set roots. \<forall>r2 \<in> set roots.
          startsWith (WorkspaceRoot.path r2) (WorkspaceRoot.path r1) \<longrightarrow>
          WorkspaceRoot.path r1 = WorkspaceRoot.path r2) \<longrightarrow>
        findWorkspace roots filePath = spec_longestPrefixWorkspace roots filePath)"
proof (intro conjI impI)
  show "findWorkspace roots filePath =
     (case filter (\<lambda>ws. startsWith filePath (WorkspaceRoot.path ws)) roots of
        [] \<Rightarrow> None | m # ms \<Rightarrow> Some (WorkspaceRoot.alias m))"
    by (rule findWorkspace_filter)
next
  assume sep: "\<forall>r1 \<in> set roots. \<forall>r2 \<in> set roots.
          startsWith (WorkspaceRoot.path r2) (WorkspaceRoot.path r1) \<longrightarrow>
          WorkspaceRoot.path r1 = WorkspaceRoot.path r2"
  let ?ms = "filter (\<lambda>ws. startsWith filePath (WorkspaceRoot.path ws)) roots"
  show "findWorkspace roots filePath = spec_longestPrefixWorkspace roots filePath"
  proof (cases ?ms)
    case Nil
    then show ?thesis by (simp add: findWorkspace_filter spec_longestPrefixWorkspace_def)
  next
    case (Cons m ms)
    have "set ?ms = {ws \<in> set roots. startsWith filePath (WorkspaceRoot.path ws)}" by simp
    with Cons have mem: "set (m # ms) = {ws \<in> set roots. startsWith filePath (WorkspaceRoot.path ws)}"
      by simp
    have "\<forall>ws \<in> set ms. length (WorkspaceRoot.path ws) \<le> length (WorkspaceRoot.path m)"
    proof
      fix ws assume "ws \<in> set ms"
      then have "ws \<in> set (m # ms)" "m \<in> set (m # ms)" by simp_all
      then have w: "ws \<in> set roots" "startsWith filePath (WorkspaceRoot.path ws)"
        and m: "m \<in> set roots" "startsWith filePath (WorkspaceRoot.path m)"
        unfolding mem by blast+
      show "length (WorkspaceRoot.path ws) \<le> length (WorkspaceRoot.path m)"
      proof (rule ccontr)
        assume n: "\<not> ?thesis"
        then have "length (WorkspaceRoot.path m) \<le> length (WorkspaceRoot.path ws)" by simp
        from startsWith_both[OF m(2) w(2) this] sep m(1) w(1)
        have "WorkspaceRoot.path m = WorkspaceRoot.path ws" by blast
        with n show False by simp
      qed
    qed
    from fold_longest_same_length[OF this] Cons show ?thesis
      by (simp add: findWorkspace_filter spec_longestPrefixWorkspace_def)
  qed
qed

definition ex_flat_roots :: "WorkspaceRoot list" where
  "ex_flat_roots =
     [\<lparr>WorkspaceRoot.alias = ''@a'', WorkspaceRoot.path = ''/r/a''\<rparr>,
      \<lparr>WorkspaceRoot.alias = ''@b'', WorkspaceRoot.path = ''/r/b''\<rparr>]"

theorem findWorkspace_first_prefix_match_witness:
  "findWorkspace ex_flat_roots ''/r/b/x.js'' = spec_longestPrefixWorkspace ex_flat_roots ''/r/b/x.js''
   \<and> findWorkspace ex_flat_roots ''/r/b/x.js'' = Some ''@b''"
proof -
  have sep: "\<forall>r1 \<in> set ex_flat_roots. \<forall>r2 \<in> set ex_flat_roots.
          startsWith (WorkspaceRoot.path r2) (WorkspaceRoot.path r1) \<longrightarrow>
          WorkspaceRoot.path r1 = WorkspaceRoot.path r2"
    by (simp add: ex_flat_roots_def startsWith_def)
  have "findWorkspace ex_flat_roots ''/r/b/x.js'' = spec_longestPrefixWorkspace ex_flat_roots ''/r/b/x.js''"
    using findWorkspace_first_prefix_match[THEN conjunct2, THEN mp, OF sep] .
  moreover have "findWorkspace ex_flat_roots ''/r/b/x.js'' = Some ''@b''"
    by (simp add: ex_flat_roots_def startsWith_def)
  ultimately show ?thesis by simp
qed

section \<open>Duplicate identities\<close>

lemma check_dependsOn_known:
  "\<forall>d \<in> set deps. known_alias cfg d \<Longrightarrow> check_dependsOn cfg ws deps = Inr ()"
  by (induction deps) auto

lemma set_set_add: "set (set_add x s) = insert x (set s)"
  by (auto simp: set_add_def)

lemma validate_loop_error_kind:
  "\<forall>w \<in> set wss. existsSync (Workspace.path w)
      \<and> (\<forall>d \<in> set (case dependsOn w of None \<Rightarrow> [] | Some deps \<Rightarrow> deps). known_alias cfg d) \<Longrightarrow>
   validate_loop existsSync cfg wss aliases paths = Inl e \<Longrightarrow>
   (\<exists>x. e = DuplicateAlias x \<or> e = DuplicatePath x)"
proof (induction wss arbitrary: aliases paths)
  case Nil
  then show ?case by simp
next
  case (Cons w rest)
  from Cons.prems(1) have ok: "existsSync (Workspace.path w)"
    and deps: "check_dependsOn cfg w (case dependsOn w of None \<Rightarrow> [] | Some deps \<Rightarrow> deps) = Inr ()"
    and rest: "\<forall>w \<in> set rest. existsSync (Workspace.path w)
      \<and> (\<forall>d \<in> set (case dependsOn w of None \<Rightarrow> [] | Some deps \<Rightarrow> deps). known_alias cfg d)"
    by (simp_all add: check_dependsOn_known)
  show ?case
  proof (cases "(truthy (alias w) \<and> the (alias w) \<in> set aliases) \<or> Workspace.path w \<in> set paths")
    case True
    with Cons.prems(2) show ?thesis by (auto simp: Let_def split: if_splits)
  next
    case False
    with Cons.prems(2) ok deps obtain al ps where "validate_loop existsSync cfg rest al ps = Inl e"
      by (auto simp: Let_def split: if_splits)
    from Cons.IH[OF rest this] show ?thesis .
  qed
qed

lemma validate_loop_duplicate:
  "\<exists>k<length wss.
      (truthy (alias (wss ! k)) \<and>
         (the (alias (wss ! k)) \<in> set aliases \<or> (\<exists>i<k. alias (wss ! i) = alias (wss ! k))))
      \<or> Workspace.path (wss ! k) \<in> set paths
      \<or> (\<exists>i<k. Workspace.path (wss ! i) = Workspace.path (wss ! k)) \<Longrightarrow>
   \<exists>e. validate_loop existsSync cfg wss aliases paths = Inl e"
proof (induction wss arbitrary: aliases paths)
  case Nil
  then show ?case by simp
next
  case (Cons w rest)
  let ?al = "if truthy (alias w) then set_add (the (alias w)) aliases else aliases"
  let ?ps = "set_add (Workspace.path w) paths"
  show ?case
  proof (cases "\<exists>e. validate_loop existsSync cfg (w # rest) aliases paths = Inl e")
    case True
    then show ?thesis .
  next
    case False
    then have head: "\<not> (truthy (alias w) \<and> the (alias w) \<in> set aliases)"
        "Workspace.path w \<notin> set paths"
      and cont: "validate_loop existsSync cfg (w # rest) aliases paths =
                 validate_loop existsSync cfg rest ?al ?ps"
      by (auto simp: Let_def split: if_splits sum.splits)
    from Cons.prems obtain k where k: "k < length (w # rest)"
      and dup: "(truthy (alias ((w # rest) ! k)) \<and>
         (the (alias ((w # rest) ! k)) \<in> set aliases
            \<or> (\<exists>i<k. alias ((w # rest) ! i) = alias ((w # rest) ! k))))
      \<or> Workspace.path ((w # rest) ! k) \<in> set paths
      \<or> (\<exists>i<k. Workspace.path ((w # rest) ! i) = Workspace.path ((w # rest) ! k))"
      by blast
    have "k \<noteq> 0"
    proof
      assume "k = 0"
      with head dup show False by auto
    qed
    then obtain k' where k': "k = Suc k'" by (cases k) auto
    with k have lt: "k' < length rest" by simp
    have "(truthy (alias (rest ! k')) \<and>
         (the (alias (rest ! k')) \<in> set ?al \<or> (\<exists>i<k'. alias (rest ! i) = alias (rest ! k'))))
      \<or> Workspace.path (rest ! k') \<in> set ?ps
      \<or> (\<exists>i<k'. Workspace.path (rest ! i) = Workspace.path (rest ! k'))"
      using dup unfolding k'
    proof (elim disjE conjE exE)
      assume "truthy (alias ((w # rest) ! Suc k'))"
        "the (alias ((w # rest) ! Suc k')) \<in> set aliases"
      then show ?thesis by (auto simp: set_set_add)
    next
      fix i assume t: "truthy (alias ((w # rest) ! Suc k'))"
        and i: "i < Suc k'" "alias ((w # rest) ! i) = alias ((w # rest) ! Suc k')"
      show ?thesis
      proof (cases i)
        case 0
        with t i show ?thesis by (auto simp: set_set_add)
      next
        case (Suc i')
        with t i show ?thesis by auto
      qed
    next
      assume "Workspace.path ((w # rest) ! Suc k') \<in> set paths"
      then show ?thesis by (auto simp: set_set_add)
    next
      fix i assume i: "i < Suc k'"
        "Workspace.path ((w # rest) ! i) = Workspace.path ((w # rest) ! Suc k')"
      show ?thesis
      proof (cases i)
        case 0
        with i show ?thesis by (auto simp: set_set_add)
      next
        case (Suc i')
        with i show ?thesis by auto
      qed
    qed
    with lt have "\<exists>k<length rest. (truthy (alias (rest ! k)) \<and>
         (the (alias (rest ! k)) \<in> set ?al \<or> (\<exists>i<k. alias (rest ! i) = alias (rest ! k))))
      \<or> Workspace.path (rest ! k) \<in> set ?ps
      \<or> (\<exists>i<k. Workspace.path (rest ! i) = Workspace.path (rest ! k))"
      by blast
    from Cons.IH[OF this] cont show ?thesis by simp
  qed
qed

definition all_exist :: "string \<Rightarrow> bool" where
  "all_exist p = True"

definition ex_cross_cfg :: spinxConfig where
  "ex_cross_cfg =
     \<lparr>concurrency = None,
      spinxConfig.workspace =
        [\<lparr>Workspace.path = ''a'', alias = None, dependsOn = None, command = None\<rparr>,
         \<lparr>Workspace.path = ''b'', alias = Some ''a'', dependsOn = None, command = None\<rparr>],
      defaults = None\<rparr>"

text \<open>
  Claim C7, as stated, fails: a workspace without alias at path \<^verbatim>\<open>a\<close> and a second
  workspace with alias \<^verbatim>\<open>a\<close> have the same identity, yet validation passes and the
  graph is built, the second workspace silently replacing the first under the key.
\<close>

theorem cross_identity_clash_accepted:
  "map identity (spinxConfig.workspace ex_cross_cfg) = [''a'', ''a'']
   \<and> validateWorkspaces all_exist ex_cross_cfg = Inr ()
   \<and> loadGraph all_exist ex_cross_cfg =
       Inr [(''a'',
             \<lparr>GraphNode.workspace =
                \<lparr>Workspace.path = ''b'', alias = Some ''a'', dependsOn = None, command = None\<rparr>,
              dependencies = [], dependents = []\<rparr>)]"
  by (simp add: ex_cross_cfg_def all_exist_def identity_def js_or_def truthy_def
      validateWorkspaces_def loadGraph_def DependencyGraph_def buildGraph_def init_nodes_def
      build_dependents_def new_node_def new_Set_def set_add_def detectCycles_def enter_def leave_def
      dfs.simps dfs_deps.simps)

text \<open>
  Claim C7, amended. Whenever two workspace declarations carry the same non-empty alias,
  or the same path, \<open>validateWorkspaces\<close> fails, and so the graph is not constructed;
  the failure is a duplicate-alias or duplicate-path error when every path exists and
  every declared dependency names an alias (otherwise one of those errors may be
  reported first). The graph constructor itself checks nothing.
\<close>

theorem validateWorkspaces_rejects_duplicates:
  assumes "i < j" and "j < length (spinxConfig.workspace cfg)"
    and "(truthy (alias (spinxConfig.workspace cfg ! j))
            \<and> alias (spinxConfig.workspace cfg ! i) = alias (spinxConfig.workspace cfg ! j))
         \<or> Workspace.path (spinxConfig.workspace cfg ! i) = Workspace.path (spinxConfig.workspace cfg ! j)"
  shows "\<exists>e. validateWorkspaces existsSync cfg = Inl e \<and> loadGraph existsSync cfg = Inl e
     \<and> ((\<forall>w \<in> set (spinxConfig.workspace cfg). existsSync (Workspace.path w)
            \<and> (\<forall>d \<in> set (case dependsOn w of None \<Rightarrow> [] | Some deps \<Rightarrow> deps). known_alias cfg d))
          \<longrightarrow> (\<exists>x. e = DuplicateAlias x \<or> e = DuplicatePath x))"
proof -
  let ?wss = "spinxConfig.workspace cfg"
  from assms have "\<exists>k<length ?wss.
      (truthy (alias (?wss ! k)) \<and>
         (the (alias (?wss ! k)) \<in> set [] \<or> (\<exists>i<k. alias (?wss ! i) = alias (?wss ! k))))
      \<or> Workspace.path (?wss ! k) \<in> set []
      \<or> (\<exists>i<k. Workspace.path (?wss ! i) = Workspace.path (?wss ! k))"
    by blast
  from validate_loop_duplicate[OF this] obtain e where
    e: "validateWorkspaces existsSync cfg = Inl e"
    unfolding validateWorkspaces_def by blast
  then have "loadGraph existsSync cfg = Inl e" by (simp add: loadGraph_def)
  moreover have "(\<forall>w \<in> set ?wss. existsSync (Workspace.path w)
            \<and> (\<forall>d \<in> set (case dependsOn w of None \<Rightarrow> [] | Some deps \<Rightarrow> deps). known_alias cfg d))
          \<longrightarrow> (\<exists>x. e = DuplicateAlias x \<or> e = DuplicatePath x)"
    using validate_loop_error_kind[of ?wss existsSync cfg "[]" "[]" e] e
    unfolding validateWorkspaces_def by blast
  ultimately show ?thesis using e by blast
qed

definition ex_dup_cfg :: spinxConfig where
  "ex_dup_cfg =
     \<lparr>concurrency = None,
      spinxConfig.workspace =
        [\<lparr>Workspace.path = ''/r/a'', alias = Some ''@a'', dependsOn = None, command = None\<rparr>,
         \<lparr>Workspace.path = ''/r/b'', alias = Some ''@a'', dependsOn = None, command = None\<rparr>],
      defaults = None\<rparr>"

theorem validateWorkspaces_rejects_duplicates_witness:
  "validateWorkspaces all_exist ex_dup_cfg = Inl (DuplicateAlias ''@a'')
   \<and> loadGraph all_exist ex_dup_cfg = Inl (DuplicateAlias ''@a'')"
proof -
  have a: "(0::nat) < 1" and b: "1 < length (spinxConfig.workspace ex_dup_cfg)"
    and c: "(truthy (alias (spinxConfig.workspace ex_dup_cfg ! 1))
            \<and> alias (spinxConfig.workspace ex_dup_cfg ! 0) = alias (spinxConfig.workspace ex_dup_cfg ! 1))
         \<or> Workspace.path (spinxConfig.workspace ex_dup_cfg ! 0)
             = Workspace.path (spinxConfig.workspace ex_dup_cfg ! 1)"
    by (simp_all add: ex_dup_cfg_def truthy_def)
  from validateWorkspaces_rejects_duplicates[OF a b c, of all_exist]
  obtain e where e: "validateWorkspaces all_exist ex_dup_cfg = Inl e"
      "loadGraph all_exist ex_dup_cfg = Inl e" by blast
  moreover have "validateWorkspaces all_exist ex_dup_cfg = Inl (DuplicateAlias ''@a'')"
    by (simp add: validateWorkspaces_def ex_dup_cfg_def truthy_def set_add_def all_exist_def)
  ultimately show ?thesis by simp
qed

section \<open>Task scheduling\<close>

subsection \<open>The batch loop on any graph\<close>

lemma keys_init_inDegree_aux:
  "fst ` set (fold (\<lambda>(a, node) m. AList.update a (f node) m) nodes m0) = fst ` set m0 \<union> fst ` set nodes
   \<and> (distinct (map fst m0) \<longrightarrow>
        distinct (map fst (fold (\<lambda>(a, node) m. AList.update a (f node) m) nodes m0)))"
proof (induction nodes arbitrary: m0)
  case Nil
  then show ?case by simp
next
  case (Cons p nodes)
  obtain a node where p: "p = (a, node)" by (cases p)
  show ?case using Cons.IH[of "AList.update a (f node) m0"]
    by (auto simp: p dom_update distinct_update)
qed

lemma keys_init_inDegree:
  "fst ` set (init_inDegree nodes) = fst ` set nodes" "distinct (map fst (init_inDegree nodes))"
  using keys_init_inDegree_aux[of "\<lambda>node. int (length (dependencies node))" nodes "[]"]
  by (simp_all add: init_inDegree_def)

lemma keys_foldE_remove_processed:
  "foldE (remove_processed nodes) as m = Inr m' \<Longrightarrow>
     map fst m' = filter (\<lambda>k. k \<notin> set as) (map fst m)"
proof (induction as arbitrary: m)
  case Nil
  then show ?case by simp
next
  case (Cons a as)
  from Cons.prems obtain m1 where m1: "remove_processed nodes a m = Inr m1"
    and rest: "foldE (remove_processed nodes) as m1 = Inr m'"
    by (auto split: sum.splits)
  from keys_remove_processed[OF m1] have "map fst m1 = filter (\<lambda>k. k \<noteq> a) (map fst m)"
    by (simp add: removeAll_filter_not_eq) (metis)
  with Cons.IH[OF rest] show ?case by (simp add: conj_commute)
qed

lemma distinct_zero_batch: "distinct (map fst m) \<Longrightarrow> distinct (zero_batch m)"
  by (simp add: zero_batch_def distinct_map_filter)

definition batches_inv :: "Graph \<Rightarrow> (string \<times> int) list \<Rightarrow> string list list \<Rightarrow> bool" where
  "batches_inv nodes inDegree batches \<longleftrightarrow>
     distinct (map fst inDegree) \<and> fst ` set inDegree \<subseteq> fst ` set nodes \<and>
     distinct (concat batches) \<and> set (concat batches) \<subseteq> fst ` set nodes \<and>
     set (concat batches) \<inter> fst ` set inDegree = {}"

lemma batches_inv_step:
  assumes inv: "batches_inv nodes inDegree batches"
    and f: "foldE (remove_processed nodes) (zero_batch inDegree) inDegree = Inr inDegree'"
  shows "batches_inv nodes inDegree' (batches @ [zero_batch inDegree])"
proof -
  let ?b = "zero_batch inDegree"
  have k: "map fst inDegree' = filter (\<lambda>k. k \<notin> set ?b) (map fst inDegree)"
    by (rule keys_foldE_remove_processed[OF f])
  have sub: "set ?b \<subseteq> fst ` set inDegree" by (rule zero_batch_subset)
  have d: "distinct ?b" using inv by (simp add: batches_inv_def distinct_zero_batch)
  have keys': "fst ` set inDegree' = fst ` set inDegree - set ?b"
    using arg_cong[OF k, of set] by auto
  have "distinct (map fst inDegree')" using inv unfolding k batches_inv_def by simp
  moreover have "distinct (concat (batches @ [?b]))"
    using inv d sub unfolding batches_inv_def by auto
  ultimately show ?thesis
    using inv sub keys' unfolding batches_inv_def by auto
qed

lemma batches_loop_inv:
  "batches_inv nodes inDegree batches \<Longrightarrow> batches_loop nodes inDegree batches = Inr bs \<Longrightarrow>
     distinct (concat bs) \<and> set (concat bs) \<subseteq> fst ` set nodes \<and> (\<exists>more. bs = batches @ more)"
proof (induction nodes inDegree batches rule: batches_loop.induct)
  case (1 nodes inDegree batches)
  show ?case
  proof (cases "length inDegree > 0")
    case False
    with "1.prems" show ?thesis by (simp add: batches_inv_def)
  next
    case True
    with "1.prems"(2) obtain inDegree' where ne: "length (zero_batch inDegree) \<noteq> 0"
      and f: "foldE (remove_processed nodes) (zero_batch inDegree) inDegree = Inr inDegree'"
      and r: "batches_loop nodes inDegree' (batches @ [zero_batch inDegree]) = Inr bs"
      by (auto simp: Let_def split: if_splits sum.splits)
    from "1.IH"[OF True refl ne f batches_inv_step[OF "1.prems"(1) f] r]
    show ?thesis by auto
  qed
qed

lemma getParallelBatches_keys:
  assumes "getParallelBatches nodes = Inr bs"
  shows "distinct (concat bs)" and "set (concat bs) \<subseteq> fst ` set nodes"
proof -
  have "batches_inv nodes (init_inDegree nodes) []"
    by (simp add: batches_inv_def keys_init_inDegree)
  from batches_loop_inv[OF this] assms show "distinct (concat bs)" "set (concat bs) \<subseteq> fst ` set nodes"
    by (simp_all add: getParallelBatches_def)
qed

subsection \<open>Batches of tasks\<close>

lemma runTask_known:
  assumes "a \<in> fst ` set (graph runner)"
  shows "\<exists>r. runTask host runner a commandType = Inr r"
proof -
  from assms obtain node where "map_of (graph runner) a = Some node"
    by (metis map_of_eq_None_iff not_Some_eq)
  then show ?thesis
    by (simp add: runTask_def getWorkspace_def Let_def split: option.splits)
qed

lemma run_tasks_results:
  assumes "\<forall>a \<in> set aliases. \<exists>r. runTask host runner a commandType = Inr r"
  shows "\<exists>res. run_tasks host runner commandType aliases acc = Inr res
     \<and> map_of res = (\<lambda>a. if a \<in> set aliases then Some (projr (runTask host runner a commandType))
                         else map_of acc a)
     \<and> fst ` set res = fst ` set acc \<union> set aliases
     \<and> (distinct (map fst acc) \<longrightarrow> distinct (map fst res))"
  using assms
proof (induction aliases arbitrary: acc)
  case Nil
  then show ?case by simp
next
  case (Cons a aliases)
  then obtain r where r: "runTask host runner a commandType = Inr r" by auto
  from Cons.prems have "\<forall>a \<in> set aliases. \<exists>r. runTask host runner a commandType = Inr r" by simp
  from Cons.IH[OF this, of "AList.update a r acc"] obtain res where
    res: "run_tasks host runner commandType aliases (AList.update a r acc) = Inr res"
    and m: "map_of res = (\<lambda>x. if x \<in> set aliases then Some (projr (runTask host runner x commandType))
                         else map_of (AList.update a r acc) x)"
    and k: "fst ` set res = fst ` set (AList.update a r acc) \<union> set aliases"
    and d: "distinct (map fst (AList.update a r acc)) \<longrightarrow> distinct (map fst res)"
    by blast
  have "map_of res = (\<lambda>x. if x \<in> set (a # aliases) then Some (projr (runTask host runner x commandType))
                         else map_of acc x)"
    unfolding m using r by (auto simp: update_conv' fun_eq_iff)
  with res r k d show ?case by (auto simp: dom_update distinct_update)
qed

lemma distinct_set_map_of:
  "distinct (map fst xs) \<Longrightarrow> set xs = {(k, v). map_of xs k = Some v}"
  by auto

lemma runBatch_results:
  assumes "\<forall>a \<in> set aliases. \<exists>r. runTask host runner a commandType = Inr r"
  shows "\<exists>res. runBatch host runner aliases commandType limit = Inr res
     \<and> map_of res = (\<lambda>a. if a \<in> set aliases then Some (projr (runTask host runner a commandType)) else None)
     \<and> fst ` set res = set aliases \<and> distinct (map fst res)
     \<and> snd ` set res = (\<lambda>a. projr (runTask host runner a commandType)) ` set aliases"
proof -
  from run_tasks_results[OF assms, of "[]"] obtain res where
    res0: "run_tasks host runner commandType aliases [] = Inr res"
    and m0: "map_of res = (\<lambda>a. if a \<in> set aliases then Some (projr (runTask host runner a commandType))
                         else map_of [] a)"
    and k0: "fst ` set res = fst ` set ([]::Results) \<union> set aliases"
    and d0: "distinct (map fst ([]::Results)) \<longrightarrow> distinct (map fst res)"
    by blast
  have res: "runBatch host runner aliases commandType limit = Inr res"
    using res0 by (simp add: runBatch_def)
  have m: "map_of res = (\<lambda>a. if a \<in> set aliases then Some (projr (runTask host runner a commandType)) else None)"
    using m0 by (simp cong: if_cong)
  have k: "fst ` set res = set aliases" using k0 by simp
  have d: "distinct (map fst res)" using d0 by simp
  have "set res = {(k, v). map_of res k = Some v}" by (rule distinct_set_map_of[OF d])
  then have "snd ` set res = (\<lambda>a. projr (runTask host runner a commandType)) ` set aliases"
    unfolding m by (auto simp: image_iff split: if_splits)
  with res m k d show ?thesis by blast
qed

lemma merge_results_map_of:
  "map_of (merge_results batchResults rs) = map_of rs ++ map_of (rev batchResults)"
  unfolding merge_results_def
proof (induction batchResults arbitrary: rs)
  case Nil
  then show ?case by simp
next
  case (Cons p batchResults)
  obtain a r where p: "p = (a, r)" by (cases p)
  show ?case unfolding p by (simp add: Cons.IH update_conv' map_add_upd_left) (auto simp: map_add_def fun_eq_iff split: option.splits)
qed

lemma merge_results_keys:
  "fst ` set (merge_results batchResults rs) = fst ` set rs \<union> fst ` set batchResults
   \<and> (distinct (map fst rs) \<longrightarrow> distinct (map fst (merge_results batchResults rs)))"
  unfolding merge_results_def
proof (induction batchResults arbitrary: rs)
  case Nil
  then show ?case by simp
next
  case (Cons p batchResults)
  obtain a r where p: "p = (a, r)" by (cases p)
  show ?case using Cons.IH[of "AList.update a r rs"]
    by (auto simp: p dom_update distinct_update)
qed

lemma has_failure_iff:
  "(length (failed batchResults) > 0) \<longleftrightarrow> (\<exists>r \<in> snd ` set batchResults. \<not> success r)"
  by (auto simp: failed_def filter_empty_conv)

lemma map_of_rev_distinct: "distinct (map fst xs) \<Longrightarrow> map_of (rev xs) = map_of xs"
  by (subst map_of_inject_set) (simp_all add: rev_map[symmetric])

lemma run_batches_all_succeed:
  assumes "\<forall>b \<in> set bs. \<forall>a \<in> set (apply_filter fltr b).
             \<exists>r. runTask host runner a commandType = Inr r \<and> success r"
  shows "\<exists>res. run_batches host runner commandType fltr limit bs st =
            (Inr res, started st @ concat (map (apply_filter fltr) bs))
     \<and> map_of res = (\<lambda>a. if a \<in> set (concat (map (apply_filter fltr) bs))
                          then Some (projr (runTask host runner a commandType))
                          else map_of (results st) a)
     \<and> fst ` set res = fst ` set (results st) \<union> set (concat (map (apply_filter fltr) bs))
     \<and> (distinct (map fst (results st)) \<longrightarrow> distinct (map fst res))"
  using assms
proof (induction bs arbitrary: st)
  case Nil
  then show ?case by simp
next
  case (Cons b bs)
  let ?batch = "apply_filter fltr b"
  from Cons.prems have rest: "\<forall>b \<in> set bs. \<forall>a \<in> set (apply_filter fltr b).
             \<exists>r. runTask host runner a commandType = Inr r \<and> success r" by simp
  show ?case
  proof (cases "?batch = []")
    case True
    with Cons.IH[OF rest, of st] show ?thesis by simp
  next
    case False
    from Cons.prems have ok: "\<forall>a \<in> set ?batch. \<exists>r. runTask host runner a commandType = Inr r"
      and good: "\<forall>a \<in> set ?batch. success (projr (runTask host runner a commandType))"
      by fastforce+
    from runBatch_results[OF ok, of limit] obtain batchResults where
      rb: "runBatch host runner ?batch commandType limit = Inr batchResults"
      and m: "map_of batchResults =
          (\<lambda>a. if a \<in> set ?batch then Some (projr (runTask host runner a commandType)) else None)"
      and k: "fst ` set batchResults = set ?batch" and d: "distinct (map fst batchResults)"
      and v: "snd ` set batchResults = (\<lambda>a. projr (runTask host runner a commandType)) ` set ?batch"
      by blast
    let ?st' = "\<lparr>results = merge_results batchResults (results st), started = started st @ ?batch\<rparr>"
    from good v have nf: "\<not> (\<exists>r \<in> snd ` set batchResults. \<not> success r)"
      by auto
    from Cons.IH[OF rest, of ?st'] obtain res where
      r: "run_batches host runner commandType fltr limit bs ?st' =
            (Inr res, started ?st' @ concat (map (apply_filter fltr) bs))"
      and rm: "map_of res = (\<lambda>a. if a \<in> set (concat (map (apply_filter fltr) bs))
                          then Some (projr (runTask host runner a commandType))
                          else map_of (results ?st') a)"
      and rk: "fst ` set res = fst ` set (results ?st') \<union> set (concat (map (apply_filter fltr) bs))"
      and rd: "distinct (map fst (results ?st')) \<longrightarrow> distinct (map fst res)"
      by blast
    have run: "run_batches host runner commandType fltr limit (b # bs) st =
            (Inr res, started st @ concat (map (apply_filter fltr) (b # bs)))"
      using False rb nf r by (simp add: Let_def has_failure_iff del: length_greater_0_conv)
    have mm: "map_of (results ?st') = map_of (results st) ++ map_of batchResults"
      by (simp add: merge_results_map_of map_of_rev_distinct[OF d])
    have "map_of res = (\<lambda>a. if a \<in> set (concat (map (apply_filter fltr) (b # bs)))
                          then Some (projr (runTask host runner a commandType))
                          else map_of (results st) a)"
      unfolding rm mm m by (auto simp: fun_eq_iff map_add_def)
    moreover have "fst ` set res = fst ` set (results st) \<union> set (concat (map (apply_filter fltr) (b # bs)))"
      unfolding rk using merge_results_keys[of batchResults "results st"] k by auto
    moreover have "distinct (map fst (results st)) \<longrightarrow> distinct (map fst res)"
      using rd merge_results_keys[of batchResults "results st"] by simp
    ultimately show ?thesis using run by blast
  qed
qed

lemma run_batches_first_failure:
  assumes "n < length bs"
    and "\<forall>k<n. \<forall>a \<in> set (apply_filter fltr (bs ! k)).
           \<exists>r. runTask host runner a commandType = Inr r \<and> success r"
    and "\<forall>a \<in> set (apply_filter fltr (bs ! n)). \<exists>r. runTask host runner a commandType = Inr r"
    and "\<exists>a \<in> set (apply_filter fltr (bs ! n)). \<exists>r. runTask host runner a commandType = Inr r \<and> \<not> success r"
  shows "run_batches host runner commandType fltr limit bs st =
           (Inl (RunFailed commandType), started st @ concat (map (apply_filter fltr) (take (Suc n) bs)))"
  using assms
proof (induction bs arbitrary: n st)
  case Nil
  then show ?case by simp
next
  case (Cons b bs)
  let ?batch = "apply_filter fltr b"
  show ?case
  proof (cases n)
    case 0
    with Cons.prems(3) have ok: "\<forall>a \<in> set ?batch. \<exists>r. runTask host runner a commandType = Inr r"
      by simp
    from Cons.prems(4) 0 obtain a r where "a \<in> set ?batch"
      "runTask host runner a commandType = Inr r" "\<not> success r" by auto
    then have bad: "\<exists>a \<in> set ?batch. \<not> success (projr (runTask host runner a commandType))"
      by force
    then have ne: "?batch \<noteq> []" by auto
    from runBatch_results[OF ok, of limit] obtain batchResults where
      rb: "runBatch host runner ?batch commandType limit = Inr batchResults"
      and v: "snd ` set batchResults = (\<lambda>a. projr (runTask host runner a commandType)) ` set ?batch"
      by blast
    from bad v have "\<exists>r \<in> snd ` set batchResults. \<not> success r"
      by auto
    with ne rb 0 show ?thesis
      by (simp add: Let_def has_failure_iff del: length_greater_0_conv)
  next
    case (Suc m)
    from Cons.prems(2) Suc have head: "\<forall>a \<in> set ?batch. \<exists>r. runTask host runner a commandType = Inr r \<and> success r"
      by (metis nth_Cons_0 zero_less_Suc)
    from Cons.prems Suc have m: "m < length bs"
      and before: "\<forall>k<m. \<forall>a \<in> set (apply_filter fltr (bs ! k)).
           \<exists>r. runTask host runner a commandType = Inr r \<and> success r"
      and ok: "\<forall>a \<in> set (apply_filter fltr (bs ! m)). \<exists>r. runTask host runner a commandType = Inr r"
      and bad: "\<exists>a \<in> set (apply_filter fltr (bs ! m)). \<exists>r. runTask host runner a commandType = Inr r \<and> \<not> success r"
      by (auto simp: less_Suc_eq_0_disj all_conj_distrib)
    show ?thesis
    proof (cases "?batch = []")
      case True
      with Cons.IH[OF m before ok bad, of st] Suc show ?thesis by simp
    next
      case False
      from head have ok': "\<forall>a \<in> set ?batch. \<exists>r. runTask host runner a commandType = Inr r"
        and good: "\<forall>a \<in> set ?batch. success (projr (runTask host runner a commandType))"
        by fastforce+
      from runBatch_results[OF ok', of limit] obtain batchResults where
        rb: "runBatch host runner ?batch commandType limit = Inr batchResults"
        and v: "snd ` set batchResults = (\<lambda>a. projr (runTask host runner a commandType)) ` set ?batch"
        by blast
      from good v have nf: "\<not> (\<exists>r \<in> snd ` set batchResults. \<not> success r)"
        by auto
      let ?st' = "\<lparr>results = merge_results batchResults (results st), started = started st @ ?batch\<rparr>"
      from Cons.IH[OF m before ok bad, of ?st'] False rb nf Suc show ?thesis
        by (simp add: Let_def has_failure_iff del: length_greater_0_conv)
    qed
  qed
qed

lemma run_batches_prefix:
  "run_batches host runner commandType fltr limit bs st = (out, s) \<Longrightarrow>
   \<exists>n\<le>length bs. s = started st @ concat (map (apply_filter fltr) (take n bs))
      \<and> ((\<forall>e. out \<noteq> Inl e) \<longrightarrow> n = length bs)"
proof (induction bs arbitrary: st)
  case Nil
  then show ?case by auto
next
  case (Cons b bs)
  let ?batch = "apply_filter fltr b"
  have step: "\<exists>n\<le>length (b # bs). s = started st @ concat (map (apply_filter fltr) (take n (b # bs)))
      \<and> ((\<forall>e. out \<noteq> Inl e) \<longrightarrow> n = length (b # bs))"
    if "run_batches host runner commandType fltr limit bs st' = (out, s)"
      and "started st' = started st @ ?batch" for st'
  proof -
    from Cons.IH[OF that(1)] obtain n where "n \<le> length bs"
      "s = started st' @ concat (map (apply_filter fltr) (take n bs))"
      "(\<forall>e. out \<noteq> Inl e) \<longrightarrow> n = length bs" by blast
    with that(2) show ?thesis by (intro exI[of _ "Suc n"]) simp
  qed
  have stop: "\<exists>n\<le>length (b # bs). s = started st @ concat (map (apply_filter fltr) (take n (b # bs)))
      \<and> ((\<forall>e. out \<noteq> Inl e) \<longrightarrow> n = length (b # bs))"
    if "out = Inl e" and "s = started st @ ?batch" for e
    using that by (intro exI[of _ "Suc 0"]) simp
  show ?case
  proof (cases "?batch = []")
    case True
    with Cons.prems have "run_batches host runner commandType fltr limit bs st = (out, s)" by simp
    from step[OF this] True show ?thesis by simp
  next
    case False
    show ?thesis
    proof (cases "runBatch host runner ?batch commandType limit")
      case (Inl e)
      with False Cons.prems have "out = Inl e" "s = started st @ ?batch" by (simp_all add: Let_def)
      then show ?thesis by (rule stop)
    next
      case (Inr batchResults)
      let ?st' = "\<lparr>results = merge_results batchResults (results st), started = started st @ ?batch\<rparr>"
      show ?thesis
      proof (cases "\<exists>r \<in> snd ` set batchResults. \<not> success r")
        case nf: False
        with False Inr Cons.prems have "run_batches host runner commandType fltr limit bs ?st' = (out, s)"
          by (simp add: Let_def has_failure_iff del: length_greater_0_conv)
        from step[OF this] show ?thesis by simp
      next
        case True
        with False Inr Cons.prems have "out = Inl (RunFailed commandType)" "s = started st @ ?batch"
          by (simp_all add: Let_def has_failure_iff del: length_greater_0_conv)
        then show ?thesis by (rule stop)
      qed
    qed
  qed
qed

subsection \<open>A three-workspace example\<close>

definition ex_utils :: Workspace where
  "ex_utils =
     \<lparr>Workspace.path = ''/repo/utils'', alias = Some ''@utils'', dependsOn = Some [], command = None\<rparr>"

definition ex_orders :: Workspace where
  "ex_orders =
     \<lparr>Workspace.path = ''/repo/orders'', alias = Some ''@orders'', dependsOn = Some [''@utils''],
      command = None\<rparr>"

definition ex_cart :: Workspace where
  "ex_cart =
     \<lparr>Workspace.path = ''/repo/cart'', alias = Some ''@cart'',
      dependsOn = Some [''@orders'', ''@utils''], command = None\<rparr>"

definition ex_shop_cfg :: spinxConfig where
  "ex_shop_cfg =
     \<lparr>concurrency = None, spinxConfig.workspace = [ex_utils, ex_orders, ex_cart],
      defaults = Some [''build'' \<mapsto> ''npm run build'']\<rparr>"

definition ex_shop_runner :: TaskRunner where
  "ex_shop_runner =
     \<lparr>TaskRunner.config = ex_shop_cfg, graph = buildGraph ex_shop_cfg, nodeOptions = []\<rparr>"

definition ex_fail_host :: Host where
  "ex_fail_host =
     \<lparr>execa = (\<lambda>cmd cwd env.
         if cwd = ''/repo/orders'' then \<lparr>exitError = Some ''exit code 1'', elapsed = 7\<rparr>
         else \<lparr>exitError = None, elapsed = 5\<rparr>),
      process_env = Map.empty\<rparr>"

lemma ex_shop_graph:
  "buildGraph ex_shop_cfg =
     [(''@utils'', \<lparr>GraphNode.workspace = ex_utils,
                    dependencies = [], dependents = [''@orders'', ''@cart'']\<rparr>),
      (''@orders'', \<lparr>GraphNode.workspace = ex_orders,
                    dependencies = [''@utils''], dependents = [''@cart'']\<rparr>),
      (''@cart'', \<lparr>GraphNode.workspace = ex_cart,
                    dependencies = [''@orders'', ''@utils''], dependents = []\<rparr>)]"
  by (simp add: ex_shop_cfg_def buildGraph_def init_nodes_def build_dependents_def new_node_def
      new_Set_def set_add_def identity_def js_or_def truthy_def add_dependent_def
      ex_utils_def ex_orders_def ex_cart_def)

lemma ex_shop_batches:
  "getParallelBatches (buildGraph ex_shop_cfg) = Inr [[''@utils''], [''@orders''], [''@cart'']]"
  unfolding ex_shop_graph
  by (simp add: getParallelBatches_def init_inDegree_def zero_batch_def remove_processed_def
      dec_present_def)


lemma ex_shop_runner_sel:
  "graph ex_shop_runner =
     [(''@utils'', \<lparr>GraphNode.workspace = ex_utils,
                    dependencies = [], dependents = [''@orders'', ''@cart'']\<rparr>),
      (''@orders'', \<lparr>GraphNode.workspace = ex_orders,
                    dependencies = [''@utils''], dependents = [''@cart'']\<rparr>),
      (''@cart'', \<lparr>GraphNode.workspace = ex_cart,
                    dependencies = [''@orders'', ''@utils''], dependents = []\<rparr>)]"
  "TaskRunner.config ex_shop_runner = ex_shop_cfg"
  "nodeOptions ex_shop_runner = []"
  by (simp_all add: ex_shop_runner_def ex_shop_graph)

lemma ex_shop_runner_batches:
  "getParallelBatches (graph ex_shop_runner) = Inr [[''@utils''], [''@orders''], [''@cart'']]"
  by (simp add: ex_shop_runner_def ex_shop_batches)

lemma ex_shop_tasks:
  "runTask ex_fail_host ex_shop_runner ''@utils'' ''build'' =
     Inr \<lparr>TaskResult.workspace = ''@utils'', success = True, duration = 5, error = None\<rparr>"
  "runTask ex_fail_host ex_shop_runner ''@orders'' ''build'' =
     Inr \<lparr>TaskResult.workspace = ''@orders'', success = False, duration = 7,
          error = Some ''exit code 1''\<rparr>"
  "runTask ex_host ex_shop_runner ''@utils'' ''build'' =
     Inr \<lparr>TaskResult.workspace = ''@utils'', success = True, duration = 5, error = None\<rparr>"
  "runTask ex_host ex_shop_runner ''@orders'' ''build'' =
     Inr \<lparr>TaskResult.workspace = ''@orders'', success = True, duration = 5, error = None\<rparr>"
  "runTask ex_host ex_shop_runner ''@cart'' ''build'' =
     Inr \<lparr>TaskResult.workspace = ''@cart'', success = True, duration = 5, error = None\<rparr>"
  by (simp_all add: runTask_def ex_shop_runner_sel getWorkspace_def getCommand_def
      lookup_command_def truthy_val_def ex_shop_cfg_def ex_fail_host_def ex_host_def task_env_def
      ex_utils_def ex_orders_def ex_cart_def)

subsection \<open>Fail-fast execution\<close>

lemma distinct_concat_nth_disjoint:
  assumes "distinct (concat bs)" and "i < j" and "j < length bs"
  shows "set (bs ! i) \<inter> set (bs ! j) = {}"
proof -
  have "concat bs = concat (take j bs @ bs ! j # drop (Suc j) bs)"
    by (rule arg_cong[OF id_take_nth_drop[OF assms(3)]])
  then have "concat bs = concat (take j bs) @ bs ! j @ concat (drop (Suc j) bs)" by simp
  with assms(1) have "distinct (concat (take j bs) @ bs ! j @ concat (drop (Suc j) bs))" by simp
  then have d: "set (concat (take j bs)) \<inter> set (bs ! j) = {}" by auto
  have "take j bs ! i = bs ! i" using assms(2) by simp
  moreover have "i < length (take j bs)" using assms(2,3) by simp
  ultimately have "bs ! i \<in> set (take j bs)" by (metis nth_mem)
  then have "set (bs ! i) \<subseteq> set (concat (take j bs))" by auto
  with d show ?thesis by blast
qed

lemma apply_filter_subset: "set (apply_filter fltr b) \<subseteq> set b"
  by (auto simp: apply_filter_def split: option.splits)

lemma started_take_disjoint:
  assumes "distinct (concat bs)" and "n < m" and "m < length bs"
  shows "set (bs ! m) \<inter> set (concat (map (apply_filter fltr) (take (Suc n) bs))) = {}"
proof -
  have "set (concat (map (apply_filter fltr) (take (Suc n) bs))) \<subseteq> (\<Union>k\<in>{..n}. set (bs ! k))"
  proof
    fix a assume "a \<in> set (concat (map (apply_filter fltr) (take (Suc n) bs)))"
    then obtain b where b: "b \<in> set (take (Suc n) bs)" "a \<in> set (apply_filter fltr b)" by auto
    from b(1) obtain k where "k < length (take (Suc n) bs)" "take (Suc n) bs ! k = b"
      by (auto simp: in_set_conv_nth)
    then have "k \<le> n" "bs ! k = b" by auto
    with b(2) apply_filter_subset[of fltr b] show "a \<in> (\<Union>k\<in>{..n}. set (bs ! k))" by auto
  qed
  moreover have "set (bs ! m) \<inter> set (bs ! k) = {}" if "k \<le> n" for k
    using distinct_concat_nth_disjoint[OF assms(1), of k m] that assms(2,3) by auto
  ultimately show ?thesis by blast
qed

lemma runAll_unfold:
  "getParallelBatches (graph runner) = Inr batches \<Longrightarrow>
   runAll host runner commandType fltr =
     run_batches host runner commandType fltr (concurrency_limit (TaskRunner.config runner)) batches
       \<lparr>results = [], started = []\<rparr>"
  by (simp add: runAll_def)

text \<open>
  Claim C2. Let the graph's batches be \<open>batches\<close>. If every task of the (filtered) batches
  before batch \<open>n\<close> succeeds and some task of batch \<open>n\<close> has \<open>success = False\<close>, then
  \<open>runAll\<close> raises \<open>RunFailed commandType\<close>, the tasks started are exactly those of
  batches \<open>0..n\<close>, and no workspace of a later batch is among them. If every task of every
  batch succeeds, \<open>runAll\<close> returns a map with exactly one result per executed
  workspace, the result \<open>runTask\<close> produced for it.
\<close>

theorem runAll_fail_fast:
  assumes "getParallelBatches (graph runner) = Inr batches"
  shows "(\<forall>n<length batches.
            (\<forall>k<n. \<forall>a \<in> set (apply_filter fltr (batches ! k)).
                \<exists>r. runTask host runner a commandType = Inr r \<and> success r)
            \<and> (\<exists>a \<in> set (apply_filter fltr (batches ! n)).
                \<exists>r. runTask host runner a commandType = Inr r \<and> \<not> success r)
            \<longrightarrow> runAll host runner commandType fltr =
                  (Inl (RunFailed commandType),
                   concat (map (apply_filter fltr) (take (Suc n) batches)))
                \<and> (\<forall>m. n < m \<and> m < length batches \<longrightarrow>
                      set (batches ! m) \<inter> set (snd (runAll host runner commandType fltr)) = {}))
       \<and> ((\<forall>b \<in> set batches. \<forall>a \<in> set (apply_filter fltr b).
                \<exists>r. runTask host runner a commandType = Inr r \<and> success r)
            \<longrightarrow> (\<exists>res. runAll host runner commandType fltr =
                        (Inr res, concat (map (apply_filter fltr) batches))
                  \<and> distinct (map fst res)
                  \<and> fst ` set res = set (concat (map (apply_filter fltr) batches))
                  \<and> (\<forall>(a, r) \<in> set res. runTask host runner a commandType = Inr r)))"
proof (intro conjI allI impI)
  fix n assume n: "n < length batches"
    and h: "(\<forall>k<n. \<forall>a \<in> set (apply_filter fltr (batches ! k)).
                \<exists>r. runTask host runner a commandType = Inr r \<and> success r)
            \<and> (\<exists>a \<in> set (apply_filter fltr (batches ! n)).
                \<exists>r. runTask host runner a commandType = Inr r \<and> \<not> success r)"
  let ?limit = "concurrency_limit (TaskRunner.config runner)"
  note u = runAll_unfold[OF assms, of host commandType fltr]
  have "\<forall>a \<in> set (apply_filter fltr (batches ! n)). \<exists>r. runTask host runner a commandType = Inr r"
  proof
    fix a assume "a \<in> set (apply_filter fltr (batches ! n))"
    with apply_filter_subset[of fltr "batches ! n"] n have "a \<in> set (concat batches)" by auto
    with getParallelBatches_keys(2)[OF assms] have "a \<in> fst ` set (graph runner)" by blast
    then show "\<exists>r. runTask host runner a commandType = Inr r" by (rule runTask_known)
  qed
  from run_batches_first_failure[OF n conjunct1[OF h] this conjunct2[OF h]] u
  show r: "runAll host runner commandType fltr =
             (Inl (RunFailed commandType), concat (map (apply_filter fltr) (take (Suc n) batches)))"
    by simp
  fix m assume "n < m \<and> m < length batches"
  with started_take_disjoint[OF getParallelBatches_keys(1)[OF assms], of n m fltr] r
  show "set (batches ! m) \<inter> set (snd (runAll host runner commandType fltr)) = {}" by simp
next
  assume ok: "\<forall>b \<in> set batches. \<forall>a \<in> set (apply_filter fltr b).
                \<exists>r. runTask host runner a commandType = Inr r \<and> success r"
  let ?limit = "concurrency_limit (TaskRunner.config runner)"
  note u = runAll_unfold[OF assms, of host commandType fltr]
  let ?ex = "concat (map (apply_filter fltr) batches)"
  from run_batches_all_succeed[OF ok, of ?limit "\<lparr>results = [], started = []\<rparr>"] obtain res where
    r: "run_batches host runner commandType fltr ?limit batches \<lparr>results = [], started = []\<rparr> =
          (Inr res, ?ex)"
    and m: "map_of res = (\<lambda>a. if a \<in> set ?ex then Some (projr (runTask host runner a commandType)) else None)"
    and k: "fst ` set res = set ?ex" and d: "distinct (map fst res)"
    by (auto cong: if_cong)
  have "\<forall>(a, r) \<in> set res. runTask host runner a commandType = Inr r"
  proof (clarify)
    fix a r assume "(a, r) \<in> set res"
    with d have mr: "map_of res a = Some r" by simp
    with m have a: "a \<in> set ?ex" and r: "r = projr (runTask host runner a commandType)"
      by (auto split: if_splits)
    from a ok obtain r' where "runTask host runner a commandType = Inr r'" by auto
    with r show "runTask host runner a commandType = Inr r" by simp
  qed
  with u r k d show "\<exists>res. runAll host runner commandType fltr = (Inr res, ?ex)
                  \<and> distinct (map fst res) \<and> fst ` set res = set ?ex
                  \<and> (\<forall>(a, r) \<in> set res. runTask host runner a commandType = Inr r)"
    by auto
qed

theorem runAll_fail_fast_witness:
  "runAll ex_fail_host ex_shop_runner ''build'' None =
     (Inl (RunFailed ''build''), [''@utils'', ''@orders''])
   \<and> set [''@cart''] \<inter> set (snd (runAll ex_fail_host ex_shop_runner ''build'' None)) = {}
   \<and> fst (runAll ex_host ex_shop_runner ''build'' None) =
       Inr [(''@utils'', \<lparr>TaskResult.workspace = ''@utils'', success = True, duration = 5, error = None\<rparr>),
            (''@orders'', \<lparr>TaskResult.workspace = ''@orders'', success = True, duration = 5, error = None\<rparr>),
            (''@cart'', \<lparr>TaskResult.workspace = ''@cart'', success = True, duration = 5, error = None\<rparr>)]"
proof -
  let ?bs = "[[''@utils''], [''@orders''], [''@cart'']]"
  have n: "1 < length ?bs" by simp
  have h: "(\<forall>k<1. \<forall>a \<in> set (apply_filter None (?bs ! k)).
                \<exists>r. runTask ex_fail_host ex_shop_runner a ''build'' = Inr r \<and> success r)
            \<and> (\<exists>a \<in> set (apply_filter None (?bs ! 1)).
                \<exists>r. runTask ex_fail_host ex_shop_runner a ''build'' = Inr r \<and> \<not> success r)"
    by (simp add: apply_filter_def ex_shop_tasks)
  from runAll_fail_fast[OF ex_shop_runner_batches, of None ex_fail_host "''build''",
      THEN conjunct1, rule_format, OF n h]
  have a: "runAll ex_fail_host ex_shop_runner ''build'' None =
     (Inl (RunFailed ''build''), [''@utils'', ''@orders''])"
    and b: "set (?bs ! 2) \<inter> set (snd (runAll ex_fail_host ex_shop_runner ''build'' None)) = {}"
    by (simp_all add: apply_filter_def)
  have "fst (runAll ex_host ex_shop_runner ''build'' None) =
       Inr [(''@utils'', \<lparr>TaskResult.workspace = ''@utils'', success = True, duration = 5, error = None\<rparr>),
            (''@orders'', \<lparr>TaskResult.workspace = ''@orders'', success = True, duration = 5, error = None\<rparr>),
            (''@cart'', \<lparr>TaskResult.workspace = ''@cart'', success = True, duration = 5, error = None\<rparr>)]"
    by (simp add: runAll_def ex_shop_runner_batches apply_filter_def runBatch_def ex_shop_tasks
        failed_def merge_results_def)
  with a b show ?thesis by simp
qed

subsection \<open>Filtered runs\<close>

text \<open>
  Claim C9, as stated, fails on a run that aborts: with the filter \<open>{@orders, @cart}\<close> and
  a failing \<open>@orders\<close>, the union over the batches of batch \<open>\<inter>\<close> filter is
  \<open>{@orders, @cart}\<close>, but only \<open>@orders\<close> is executed.
\<close>

theorem runAll_filter_stops_at_failure:
  "getParallelBatches (graph ex_shop_runner) = Inr [[''@utils''], [''@orders''], [''@cart'']]
   \<and> concat (map (filter (\<lambda>a. a \<in> set [''@orders'', ''@cart'']))
        [[''@utils''], [''@orders''], [''@cart'']]) = [''@orders'', ''@cart'']
   \<and> snd (runAll ex_fail_host ex_shop_runner ''build'' (Some [''@orders'', ''@cart''])) = [''@orders'']"
  by (simp add: ex_shop_runner_batches runAll_def apply_filter_def runBatch_def ex_shop_tasks
      failed_def merge_results_def)

text \<open>
  Claim C9, amended. With a filter \<open>f\<close>, the workspaces \<open>runAll\<close> executes are exactly the
  members of \<open>f\<close> in the batches up to and including the first batch in which a task
  fails, and the members of \<open>f\<close> in all batches when no task fails; in that case they are
  exactly the union over the batches of the intersection of the batch with \<open>f\<close>. Every
  task of a batch returns a result, so one of the two cases applies. Nothing outside \<open>f\<close>
  is ever executed: a dependency that is not in the filter is skipped, and no dependency
  closure is taken.
\<close>

theorem runAll_filter_no_closure:
  assumes "getParallelBatches (graph runner) = Inr batches"
  shows "(\<forall>n<length batches.
            (\<forall>k<n. \<forall>a \<in> set (filter (\<lambda>a. a \<in> set f) (batches ! k)).
                \<exists>r. runTask host runner a commandType = Inr r \<and> success r)
            \<and> (\<exists>a \<in> set (filter (\<lambda>a. a \<in> set f) (batches ! n)).
                \<exists>r. runTask host runner a commandType = Inr r \<and> \<not> success r)
            \<longrightarrow> snd (runAll host runner commandType (Some f)) =
                  concat (map (filter (\<lambda>a. a \<in> set f)) (take (Suc n) batches)))
       \<and> ((\<forall>b \<in> set batches. \<forall>a \<in> set (filter (\<lambda>a. a \<in> set f) b).
                \<exists>r. runTask host runner a commandType = Inr r \<and> success r)
            \<longrightarrow> snd (runAll host runner commandType (Some f)) =
                  concat (map (filter (\<lambda>a. a \<in> set f)) batches)
                \<and> set (snd (runAll host runner commandType (Some f))) =
                    (\<Union>b \<in> set batches. set b \<inter> set f))
       \<and> (\<forall>b \<in> set batches. \<forall>a \<in> set b. \<exists>r. runTask host runner a commandType = Inr r)
       \<and> set (snd (runAll host runner commandType (Some f))) \<subseteq> set f"
proof (intro conjI allI impI ballI)
  have af: "apply_filter (Some f) = filter (\<lambda>a. a \<in> set f)" by (auto simp: apply_filter_def)
  note u = runAll_unfold[OF assms, of host commandType "Some f"]
  have known: "\<exists>r. runTask host runner a commandType = Inr r" if "b \<in> set batches" "a \<in> set b" for a b
  proof -
    from that have "a \<in> set (concat batches)" by auto
    with getParallelBatches_keys(2)[OF assms] have "a \<in> fst ` set (graph runner)" by blast
    then show ?thesis by (rule runTask_known)
  qed
  {
    fix n assume n: "n < length batches"
      and h: "(\<forall>k<n. \<forall>a \<in> set (filter (\<lambda>a. a \<in> set f) (batches ! k)).
                \<exists>r. runTask host runner a commandType = Inr r \<and> success r)
            \<and> (\<exists>a \<in> set (filter (\<lambda>a. a \<in> set f) (batches ! n)).
                \<exists>r. runTask host runner a commandType = Inr r \<and> \<not> success r)"
    have all: "\<forall>a \<in> set (apply_filter (Some f) (batches ! n)).
        \<exists>r. runTask host runner a commandType = Inr r"
    proof
      fix a assume "a \<in> set (apply_filter (Some f) (batches ! n))"
      with apply_filter_subset[of "Some f" "batches ! n"] have "a \<in> set (batches ! n)" by blast
      with known[OF nth_mem[OF n]] show "\<exists>r. runTask host runner a commandType = Inr r" by blast
    qed
    from run_batches_first_failure[OF n conjunct1[OF h, folded af] all conjunct2[OF h, folded af]] u
    show "snd (runAll host runner commandType (Some f)) =
                  concat (map (filter (\<lambda>a. a \<in> set f)) (take (Suc n) batches))"
      by (simp add: af)
  }
  {
    assume ok: "\<forall>b \<in> set batches. \<forall>a \<in> set (filter (\<lambda>a. a \<in> set f) b).
                \<exists>r. runTask host runner a commandType = Inr r \<and> success r"
    from run_batches_all_succeed[OF ok[folded af],
        of "concurrency_limit (TaskRunner.config runner)" "\<lparr>results = [], started = []\<rparr>"] u
    show e: "snd (runAll host runner commandType (Some f)) =
                  concat (map (filter (\<lambda>a. a \<in> set f)) batches)"
      by (auto simp: af)
    show "set (snd (runAll host runner commandType (Some f))) = (\<Union>b \<in> set batches. set b \<inter> set f)"
      unfolding e by auto
  }
  {
    fix b a assume "b \<in> set batches" "a \<in> set b"
    then show "\<exists>r. runTask host runner a commandType = Inr r" by (rule known)
  }
  obtain out executed where r: "runAll host runner commandType (Some f) = (out, executed)"
    by (cases "runAll host runner commandType (Some f)")
  with u have "run_batches host runner commandType (Some f) (concurrency_limit (TaskRunner.config runner))
       batches \<lparr>results = [], started = []\<rparr> = (out, executed)" by simp
  from run_batches_prefix[OF this] obtain n where
    "executed = concat (map (apply_filter (Some f)) (take n batches))" by auto
  then have "set executed \<subseteq> set f" unfolding af by auto
  with r show "set (snd (runAll host runner commandType (Some f))) \<subseteq> set f"
    by simp
qed

theorem runAll_filter_no_closure_witness:
  "snd (runAll ex_fail_host ex_shop_runner ''build'' (Some [''@utils'', ''@orders''])) =
     [''@utils'', ''@orders'']
   \<and> snd (runAll ex_host ex_shop_runner ''build'' (Some [''@cart''])) = [''@cart'']
   \<and> set (snd (runAll ex_host ex_shop_runner ''build'' (Some [''@cart'']))) =
       (\<Union>b \<in> set [[''@utils''], [''@orders''], [''@cart'']]. set b \<inter> set [''@cart''])"
proof -
  let ?bs = "[[''@utils''], [''@orders''], [''@cart'']]"
  have n: "1 < length ?bs" by simp
  have h: "(\<forall>k<1. \<forall>a \<in> set (filter (\<lambda>a. a \<in> set [''@utils'', ''@orders'']) (?bs ! k)).
                \<exists>r. runTask ex_fail_host ex_shop_runner a ''build'' = Inr r \<and> success r)
            \<and> (\<exists>a \<in> set (filter (\<lambda>a. a \<in> set [''@utils'', ''@orders'']) (?bs ! 1)).
                \<exists>r. runTask ex_fail_host ex_shop_runner a ''build'' = Inr r \<and> \<not> success r)"
    by (simp add: ex_shop_tasks)
  from runAll_filter_no_closure[OF ex_shop_runner_batches,
      of "[''@utils'', ''@orders'']" ex_fail_host "''build''",
      THEN conjunct1, rule_format, OF n h]
  have a: "snd (runAll ex_fail_host ex_shop_runner ''build'' (Some [''@utils'', ''@orders''])) =
     [''@utils'', ''@orders'']"
    by simp
  have ok: "\<forall>b \<in> set ?bs. \<forall>a \<in> set (filter (\<lambda>a. a \<in> set [''@cart'']) b).
                \<exists>r. runTask ex_host ex_shop_runner a ''build'' = Inr r \<and> success r"
    by (simp add: ex_shop_tasks)
  from runAll_filter_no_closure[OF ex_shop_runner_batches, of "[''@cart'']" ex_host "''build''",
      THEN conjunct2, THEN conjunct1, THEN mp, OF ok]
  have b: "snd (runAll ex_host ex_shop_runner ''build'' (Some [''@cart''])) = [''@cart'']"
    and c: "set (snd (runAll ex_host ex_shop_runner ''build'' (Some [''@cart'']))) =
       (\<Union>b \<in> set ?bs. set b \<inter> set [''@cart''])"
    by simp_all
  from a b c show ?thesis by (intro conjI)
qed

section \<open>Affected workspaces\<close>

definition dependents_rel :: "Graph \<Rightarrow> (string \<times> string) set" where
  "dependents_rel nodes = {(a, d). \<exists>node. map_of nodes a = Some node \<and> d \<in> set (dependents node)}"

lemma set_new_Set_aux: "set (fold set_add xs acc) = set acc \<union> set xs"
  by (induction xs arbitrary: acc) (auto simp: set_add_def)

lemma set_new_Set: "set (new_Set xs) = set xs"
  by (simp add: new_Set_def set_new_Set_aux)

lemma fold_add_affected_queue:
  "fold add_affected ds (af, q) = (af', q') \<Longrightarrow> set q' = set q \<union> (set ds - set af)"
proof (induction ds arbitrary: af q)
  case Nil
  then show ?case by simp
next
  case (Cons d ds)
  show ?case
  proof (cases "d \<in> set af")
    case True
    with Cons.prems have "fold add_affected ds (af, q) = (af', q')" by simp
    from Cons.IH[OF this] True show ?thesis by auto
  next
    case False
    with Cons.prems have "fold add_affected ds (af @ [d], q @ [d]) = (af', q')"
      by (simp add: set_add_def)
    from Cons.IH[OF this] False show ?thesis by auto
  qed
qed

lemma closed_rtrancl_image:
  assumes "\<forall>a \<in> A. R `` {a} \<subseteq> A"
  shows "R\<^sup>* `` A = A"
proof
  show "R\<^sup>* `` A \<subseteq> A"
  proof
    fix y assume "y \<in> R\<^sup>* `` A"
    then obtain x where "x \<in> A" "(x, y) \<in> R\<^sup>*" by auto
    from this(2) this(1) show "y \<in> A"
      by (induction rule: rtrancl_induct) (use assms in auto)
  qed
qed auto

lemma affected_loop_closure:
  "set queue \<subseteq> set affected \<Longrightarrow>
   \<forall>a \<in> set affected - set queue. dependents_rel nodes `` {a} \<subseteq> set affected \<Longrightarrow>
   set (affected_loop nodes affected queue) = (dependents_rel nodes)\<^sup>* `` set affected"
proof (induction nodes affected queue rule: affected_loop.induct)
  case (1 nodes affected)
  then show ?case by (simp add: closed_rtrancl_image)
next
  case (2 nodes affected a queue)
  let ?R = "dependents_rel nodes"
  from "2.prems"(1) have a: "a \<in> set affected" and q: "set queue \<subseteq> set affected" by auto
  show ?case
  proof (cases "map_of nodes a")
    case None
    then have "?R `` {a} = {}" by (auto simp: dependents_rel_def)
    with "2.prems"(2) have "\<forall>x \<in> set affected - set queue. ?R `` {x} \<subseteq> set affected"
      by auto
    from "2.IH"(1)[OF None q this] None show ?thesis by simp
  next
    case (Some node)
    obtain affected' queue' where
      f: "fold add_affected (dependents node) (affected, queue) = (affected', queue')"
      by (cases "fold add_affected (dependents node) (affected, queue)")
    from Some have Ra: "?R `` {a} = set (dependents node)" by (auto simp: dependents_rel_def)
    from fold_add_affected[OF f] have sa: "set affected' = set affected \<union> set (dependents node)"
      by simp
    from fold_add_affected_queue[OF f] have sq: "set queue' = set queue \<union> (set (dependents node) - set affected)" .
    have q': "set queue' \<subseteq> set affected'" using sa sq q by auto
    have c': "\<forall>x \<in> set affected' - set queue'. ?R `` {x} \<subseteq> set affected'"
    proof
      fix x assume x: "x \<in> set affected' - set queue'"
      with sa sq have xa: "x \<in> set affected" "x \<notin> set queue" by auto
      show "?R `` {x} \<subseteq> set affected'"
      proof (cases "x = a")
        case True
        with Ra sa show ?thesis by auto
      next
        case False
        with xa "2.prems"(2) have "?R `` {x} \<subseteq> set affected" by auto
        with sa show ?thesis by auto
      qed
    qed
    have "set (affected_loop nodes affected (a # queue)) = set (affected_loop nodes affected' queue')"
      using Some f by simp
    also have "\<dots> = ?R\<^sup>* `` set affected'"
      by (rule "2.IH"(2)[OF Some f[symmetric] q' c'])
    also have "\<dots> = ?R\<^sup>* `` set affected"
    proof -
      have "?R\<^sup>* `` (?R `` {a}) \<subseteq> ?R\<^sup>* `` set affected"
        using a by (auto intro: converse_rtrancl_into_rtrancl)
      then show ?thesis unfolding sa Ra[symmetric] by (auto simp: Image_Un)
    qed
    finally show ?thesis .
  qed
qed

lemma getAffected_closure:
  "set (getAffected nodes changedAliases) = (dependents_rel nodes)\<^sup>* `` set changedAliases"
  unfolding getAffected_def
  by (subst affected_loop_closure) (simp_all add: set_new_Set)

text \<open>
  Claim C8. On every graph and for every list of changed aliases, \<open>getAffected\<close> applied
  to its own result returns the same set, and that set is the changed aliases together
  with every alias reachable from one of them over the \<open>dependents\<close> edges.
\<close>

theorem getAffected_fixed_point:
  "set (getAffected nodes (getAffected nodes changedAliases)) = set (getAffected nodes changedAliases)
   \<and> set (getAffected nodes changedAliases) =
       set changedAliases \<union> {d. \<exists>a \<in> set changedAliases. (a, d) \<in> (dependents_rel nodes)\<^sup>+}"
proof
  show "set (getAffected nodes (getAffected nodes changedAliases)) = set (getAffected nodes changedAliases)"
    unfolding getAffected_closure by (auto intro: rtrancl_trans)
  show "set (getAffected nodes changedAliases) =
       set changedAliases \<union> {d. \<exists>a \<in> set changedAliases. (a, d) \<in> (dependents_rel nodes)\<^sup>+}"
    unfolding getAffected_closure by (auto simp: rtrancl_eq_or_trancl)
qed

theorem getAffected_fixed_point_witness:
  "set (getAffected (buildGraph ex_shop_cfg) (getAffected (buildGraph ex_shop_cfg) [''@orders'']))
     = set (getAffected (buildGraph ex_shop_cfg) [''@orders''])
   \<and> getAffected (buildGraph ex_shop_cfg) [''@orders''] = [''@orders'', ''@cart'']"
proof -
  have "set (getAffected (buildGraph ex_shop_cfg) (getAffected (buildGraph ex_shop_cfg) [''@orders'']))
     = set (getAffected (buildGraph ex_shop_cfg) [''@orders''])"
    using getAffected_fixed_point[of "buildGraph ex_shop_cfg" "[''@orders'']", THEN conjunct1] .
  moreover have "getAffected (buildGraph ex_shop_cfg) [''@orders''] = [''@orders'', ''@cart'']"
    unfolding ex_shop_graph by (simp add: getAffected_def new_Set_def set_add_def)
  ultimately show ?thesis by simp
qed

section \<open>Version conflicts and the resolution map\<close>

text \<open>\<open>resolves_to rm w p v\<close>: the resolution map gives workspace \<open>w\<close>'s entry for package
  \<open>p\<close> the version \<open>v\<close>.\<close>

definition resolves_to :: "ResolutionMap \<Rightarrow> string \<Rightarrow> string \<Rightarrow> string \<Rightarrow> bool" where
  "resolves_to rm w p v =
     (case rm w of
        None \<Rightarrow> False
      | Some entry \<Rightarrow> (case entry p of None \<Rightarrow> False | Some r \<Rightarrow> Resolution.version r = v))"

text \<open>The workspaces listed under version \<open>v\<close> of package \<open>p\<close>.\<close>

definition users_of :: "(string \<times> string list) list \<Rightarrow> string \<Rightarrow> string list" where
  "users_of versionMap v = (case map_of versionMap v of None \<Rightarrow> [] | Some us \<Rightarrow> us)"

definition versions_of :: "AllPackages \<Rightarrow> string \<Rightarrow> (string \<times> string list) list" where
  "versions_of allPackages p = (case map_of allPackages p of None \<Rightarrow> [] | Some vm \<Rightarrow> vm)"

lemma track_eq:
  "track a p v ap =
     AList.update p (AList.update v (users_of (versions_of ap p) v @ [a]) (versions_of ap p)) ap"
  by (cases "map_of ap p"; cases "map_of (versions_of ap p) v")
     (auto simp: track_def Let_def update_conv' versions_of_def users_of_def)

lemma versions_of_track:
  "versions_of (track a p v ap) p' =
     (if p' = p then AList.update v (users_of (versions_of ap p) v @ [a]) (versions_of ap p)
      else versions_of ap p')"
  by (simp add: track_eq versions_of_def update_conv')

lemma users_of_track:
  "users_of (versions_of (track a p v ap) p') v' =
     (if p' = p \<and> v' = v then users_of (versions_of ap p) v @ [a]
      else users_of (versions_of ap p') v')"
  by (simp add: versions_of_track) (simp add: users_of_def update_conv')

definition packages_ok :: "AllPackages \<Rightarrow> bool" where
  "packages_ok ap \<longleftrightarrow>
     distinct (map fst ap) \<and>
     (\<forall>(p, vm) \<in> set ap. distinct (map fst vm) \<and> (\<forall>(v, us) \<in> set vm. us \<noteq> []))"

lemma packages_ok_versions:
  "packages_ok ap \<Longrightarrow> distinct (map fst (versions_of ap p)) \<and> (\<forall>(v, us) \<in> set (versions_of ap p). us \<noteq> [])"
  by (auto simp: packages_ok_def versions_of_def split: option.splits dest!: map_of_SomeD)

lemma set_update_subset: "set (AList.update k v al) \<subseteq> insert (k, v) (set al)"
  by (induction al) auto

lemma packages_ok_track:
  assumes "packages_ok ap"
  shows "packages_ok (track a p v ap)"
proof -
  let ?vm = "AList.update v (users_of (versions_of ap p) v @ [a]) (versions_of ap p)"
  from packages_ok_versions[OF assms, of p]
  have d: "distinct (map fst ?vm)" and n: "\<forall>(v, us) \<in> set ?vm. us \<noteq> []"
    using set_update_subset[of v "users_of (versions_of ap p) v @ [a]" "versions_of ap p"]
    by (auto simp: distinct_update)
  have sub: "set (AList.update p ?vm ap) \<subseteq> insert (p, ?vm) (set ap)" by (rule set_update_subset)
  have "distinct (map fst vm) \<and> (\<forall>(v, us) \<in> set vm. us \<noteq> [])"
    if "(q, vm) \<in> set (AList.update p ?vm ap)" for q vm
  proof (cases "(q, vm) = (p, ?vm)")
    case True
    with d n show ?thesis by simp
  next
    case False
    with that sub have "(q, vm) \<in> set ap" by blast
    with assms show ?thesis unfolding packages_ok_def by blast
  qed
  moreover have "distinct (map fst (AList.update p ?vm ap))"
    using assms by (simp add: packages_ok_def distinct_update)
  ultimately show ?thesis
    unfolding track_eq packages_ok_def by blast
qed


definition listed :: "AllPackages \<Rightarrow> string \<Rightarrow> string \<Rightarrow> string \<Rightarrow> bool" where
  "listed ap w p v \<longleftrightarrow> w \<in> set (users_of (versions_of ap p) v)"

lemma listed_track:
  "listed (track a p0 v0 ap) w p v \<longleftrightarrow> listed ap w p v \<or> (w = a \<and> p = p0 \<and> v = v0)"
  by (auto simp: listed_def users_of_track)

lemma analyze_deps_inv:
  assumes "distinct (map fst es)" and "packages_ok ap" and "dom entry \<inter> fst ` set es = {}"
    and "fold (analyze_dep fs ws a) es (entry, ap) = (entry', ap')"
  shows "packages_ok ap'
     \<and> (\<forall>w p v. listed ap' w p v \<longleftrightarrow>
           listed ap w p v \<or> (w = a \<and> p \<in> fst ` set es \<and> (\<exists>r. entry' p = Some r \<and> Resolution.version r = v)))
     \<and> (\<forall>p. p \<notin> fst ` set es \<longrightarrow> entry' p = entry p)"
  using assms
proof (induction es arbitrary: entry ap)
  case Nil
  then show ?case by simp
next
  case (Cons e es)
  obtain p0 range where e: "e = (p0, range)" by (cases e)
  from Cons.prems(1) e have d: "distinct (map fst es)" and p0: "p0 \<notin> fst ` set es" by auto
  from Cons.prems(3) e have none: "entry p0 = None" and dis: "dom entry \<inter> fst ` set es = {}" by auto
  obtain entry1 ap1 where step: "analyze_dep fs ws a (p0, range) (entry, ap) = (entry1, ap1)"
    by (cases "analyze_dep fs ws a (p0, range) (entry, ap)")
  with Cons.prems(4) e have rest: "fold (analyze_dep fs ws a) es (entry1, ap1) = (entry', ap')" by simp
  show ?case
  proof (cases "startsWith range ''workspace:'' \<or> resolveInstalledVersion fs (Workspace.path ws) p0 range = None")
    case True
    with step have same: "entry1 = entry" "ap1 = ap" by (auto split: if_splits)
    from Cons.IH[OF d Cons.prems(2) dis rest[unfolded same]]
    have ok: "packages_ok ap'"
      and l: "\<forall>w p v. listed ap' w p v \<longleftrightarrow>
           listed ap w p v \<or> (w = a \<and> p \<in> fst ` set es \<and> (\<exists>r. entry' p = Some r \<and> Resolution.version r = v))"
      and k: "\<forall>p. p \<notin> fst ` set es \<longrightarrow> entry' p = entry p" by blast+
    from k p0 none have "entry' p0 = None" by simp
    with ok l k show ?thesis unfolding e by auto
  next
    case False
    then obtain r where r: "resolveInstalledVersion fs (Workspace.path ws) p0 range = Some r"
      and nw: "\<not> startsWith range ''workspace:''" by auto
    with step have e1: "entry1 = entry(p0 \<mapsto> r)" and a1: "ap1 = track a p0 (Resolution.version r) ap"
      by auto
    have dis1: "dom entry1 \<inter> fst ` set es = {}" using dis p0 unfolding e1 by auto
    have ok1: "packages_ok ap1" unfolding a1 by (rule packages_ok_track[OF Cons.prems(2)])
    from Cons.IH[OF d ok1 dis1 rest]
    have ok: "packages_ok ap'"
      and l: "\<forall>w p v. listed ap' w p v \<longleftrightarrow>
           listed ap1 w p v \<or> (w = a \<and> p \<in> fst ` set es \<and> (\<exists>r. entry' p = Some r \<and> Resolution.version r = v))"
      and k: "\<forall>p. p \<notin> fst ` set es \<longrightarrow> entry' p = entry1 p" by blast+
    from k p0 have ep0: "entry' p0 = Some r" by (simp add: e1)
    have "\<forall>w p v. listed ap' w p v \<longleftrightarrow>
           listed ap w p v \<or> (w = a \<and> p \<in> fst ` set (e # es) \<and> (\<exists>r. entry' p = Some r \<and> Resolution.version r = v))"
      using ep0 by (auto simp: l a1 listed_track e)
    moreover have "\<forall>p. p \<notin> fst ` set (e # es) \<longrightarrow> entry' p = entry p"
      using k unfolding e e1 by auto
    ultimately show ?thesis using ok by blast
  qed
qed

lemma distinct_spread: "distinct (map fst acc) \<Longrightarrow> distinct (map fst (spread obj acc))"
proof -
  have "distinct (map fst acc) \<Longrightarrow> distinct (map fst (fold (\<lambda>(k, v). AList.update k v) kvs acc))" for kvs
    by (induction kvs arbitrary: acc) (auto simp: distinct_update)
  then show "distinct (map fst acc) \<Longrightarrow> distinct (map fst (spread obj acc))"
    by (simp add: spread_def)
qed

lemma distinct_allDeps: "distinct (map fst (allDeps pkgJson))"
  by (simp add: allDeps_def distinct_spread)

lemma resolves_to_upd:
  "resolves_to (rm(a \<mapsto> entry)) w p v \<longleftrightarrow>
     (if w = a then (\<exists>r. entry p = Some r \<and> Resolution.version r = v) else resolves_to rm w p v)"
  by (auto simp: resolves_to_def split: option.splits)

lemma analyze_workspaces_inv:
  assumes "distinct (map identity wss)" and "packages_ok ap" and "dom rm \<inter> identity ` set wss = {}"
    and "\<forall>w p v. listed ap w p v \<longleftrightarrow> resolves_to rm w p v"
    and "fold (analyze_workspace fs) wss (rm, ap) = (rm', ap')"
  shows "packages_ok ap' \<and> (\<forall>w p v. listed ap' w p v \<longleftrightarrow> resolves_to rm' w p v)"
  using assms
proof (induction wss arbitrary: rm ap)
  case Nil
  then show ?case by simp
next
  case (Cons ws wss)
  let ?a = "identity ws"
  from Cons.prems(1) have d: "distinct (map identity wss)" and a: "?a \<notin> identity ` set wss" by auto
  from Cons.prems(3) have na: "rm ?a = None" and dis: "dom rm \<inter> identity ` set wss = {}" by auto
  show ?case
  proof (cases "readPackageJson fs (Workspace.path ws)")
    case None
    with Cons.prems(5) have "fold (analyze_workspace fs) wss (rm, ap) = (rm', ap')" by simp
    from Cons.IH[OF d Cons.prems(2) dis Cons.prems(4) this] show ?thesis .
  next
    case (Some pkgJson)
    obtain entry ap1 where f:
      "fold (analyze_dep fs ws ?a) (allDeps pkgJson) (Map.empty, ap) = (entry, ap1)"
      by (cases "fold (analyze_dep fs ws ?a) (allDeps pkgJson) (Map.empty, ap)")
    with Some Cons.prems(5) have rest:
      "fold (analyze_workspace fs) wss (rm(?a \<mapsto> entry), ap1) = (rm', ap')" by simp
    from analyze_deps_inv[OF distinct_allDeps Cons.prems(2) _ f]
    have ok1: "packages_ok ap1"
      and l: "\<forall>w p v. listed ap1 w p v \<longleftrightarrow>
           listed ap w p v \<or> (w = ?a \<and> p \<in> fst ` set (allDeps pkgJson)
              \<and> (\<exists>r. entry p = Some r \<and> Resolution.version r = v))"
      and k: "\<forall>p. p \<notin> fst ` set (allDeps pkgJson) \<longrightarrow> entry p = None" by auto
    have nr: "\<not> resolves_to rm ?a p v" for p v using na by (simp add: resolves_to_def)
    have l1: "\<forall>w p v. listed ap1 w p v \<longleftrightarrow> resolves_to (rm(?a \<mapsto> entry)) w p v"
    proof (intro allI)
      fix w p v
      show "listed ap1 w p v \<longleftrightarrow> resolves_to (rm(?a \<mapsto> entry)) w p v"
      proof (cases "w = ?a")
        case True
        have "listed ap w p v = False" using Cons.prems(4) nr True by simp
        with k True show ?thesis by (cases "entry p") (auto simp: l resolves_to_upd)
      next
        case False
        with Cons.prems(4) show ?thesis by (simp add: l resolves_to_upd)
      qed
    qed
    have dis1: "dom (rm(?a \<mapsto> entry)) \<inter> identity ` set wss = {}" using dis a by auto
    from Cons.IH[OF d ok1 dis1 l1 rest] show ?thesis .
  qed
qed


lemma versions_of_member:
  "packages_ok ap \<Longrightarrow> (p, vm) \<in> set ap \<Longrightarrow> versions_of ap p = vm"
  by (simp add: packages_ok_def versions_of_def)

lemma two_members_length:
  assumes "x \<in> set xs" and "y \<in> set xs" and "x \<noteq> y"
  shows "length xs > 1"
proof -
  have "card {x, y} \<le> card (set xs)" using assms by (intro card_mono) auto
  also have "\<dots> \<le> length xs" by (rule card_length)
  finally show ?thesis using assms(3) by simp
qed

lemma conflict_iff_two_versions:
  assumes "packages_ok ap"
  shows "(\<exists>vm. (p, vm) \<in> set ap \<and> length vm > 1) \<longleftrightarrow>
         (\<exists>w1 w2 v1 v2. v1 \<noteq> v2 \<and> listed ap w1 p v1 \<and> listed ap w2 p v2)"
proof
  assume "\<exists>vm. (p, vm) \<in> set ap \<and> length vm > 1"
  then obtain vm where vm: "(p, vm) \<in> set ap" "length vm > 1" by blast
  then obtain e1 e2 rest where "vm = e1 # e2 # rest"
    by (cases vm; cases "tl vm") auto
  then obtain v1 us1 v2 us2 where s: "vm = (v1, us1) # (v2, us2) # rest"
    by (cases e1; cases e2) auto
  from versions_of_member[OF assms vm(1)] have vo: "versions_of ap p = vm" .
  from packages_ok_versions[OF assms, of p] have d: "distinct (map fst vm)"
    and n: "\<forall>(v, us) \<in> set vm. us \<noteq> []" unfolding vo by auto
  from d s have ne: "v1 \<noteq> v2" by auto
  from n s have "us1 \<noteq> []" "us2 \<noteq> []" by auto
  then obtain w1 w2 where "w1 \<in> set us1" "w2 \<in> set us2" by (meson last_in_set)
  moreover have "users_of vm v1 = us1" "users_of vm v2 = us2"
    using s ne by (simp_all add: users_of_def)
  ultimately have "listed ap w1 p v1" "listed ap w2 p v2" by (simp_all add: listed_def vo)
  with ne show "\<exists>w1 w2 v1 v2. v1 \<noteq> v2 \<and> listed ap w1 p v1 \<and> listed ap w2 p v2" by blast
next
  assume "\<exists>w1 w2 v1 v2. v1 \<noteq> v2 \<and> listed ap w1 p v1 \<and> listed ap w2 p v2"
  then obtain w1 w2 v1 v2 where ne: "v1 \<noteq> v2"
    and l1: "listed ap w1 p v1" and l2: "listed ap w2 p v2" by blast
  let ?vm = "versions_of ap p"
  from l1 have "map_of ?vm v1 \<noteq> None"
    by (cases "map_of ?vm v1") (auto simp: listed_def users_of_def)
  then obtain us1 where u1: "map_of ?vm v1 = Some us1" by blast
  from l2 have "map_of ?vm v2 \<noteq> None"
    by (cases "map_of ?vm v2") (auto simp: listed_def users_of_def)
  then obtain us2 where u2: "map_of ?vm v2 = Some us2" by blast
  from u1 u2 have "(v1, us1) \<in> set ?vm" "(v2, us2) \<in> set ?vm" by (auto dest: map_of_SomeD)
  from two_members_length[OF this] ne have len: "length ?vm > 1" by simp
  then have "?vm \<noteq> []" by auto
  then have "map_of ap p = Some ?vm" by (auto simp: versions_of_def split: option.splits)
  then have "(p, ?vm) \<in> set ap" by (rule map_of_SomeD)
  with len show "\<exists>vm. (p, vm) \<in> set ap \<and> length vm > 1" by blast
qed

lemma detect_conflicts_member:
  "c \<in> set (detect_conflicts ap) \<longleftrightarrow>
     (\<exists>p vm. (p, vm) \<in> set ap \<and> length vm > 1 \<and> c = \<lparr>packageName = p, versions = vm\<rparr>)"
  by (auto simp: detect_conflicts_def)

definition ex_x :: Workspace where
  "ex_x = \<lparr>Workspace.path = ''/repo/x'', alias = None, dependsOn = None, command = None\<rparr>"

definition ex_y :: Workspace where
  "ex_y = \<lparr>Workspace.path = ''/repo/y'', alias = Some ''/repo/x'', dependsOn = None,
           command = None\<rparr>"

definition ex_clash_cfg :: spinxConfig where
  "ex_clash_cfg = \<lparr>concurrency = None, spinxConfig.workspace = [ex_x, ex_y], defaults = None\<rparr>"

definition ex_clash_fs :: FileSystem where
  "ex_clash_fs =
     \<lparr>readPackageJson = (\<lambda>dir.
        if dir = ''/repo/x'' then
          Some \<lparr>name = ''x'', PackageJson.version = Some ''1.0.0'',
                PackageJson.dependencies = Some [(''express'', ''^5.0.0'')],
                devDependencies = None\<rparr>
        else if dir = ''/repo/y'' then
          Some \<lparr>name = ''y'', PackageJson.version = Some ''1.0.0'',
                PackageJson.dependencies = Some [(''express'', ''^4.18.0'')],
                devDependencies = None\<rparr>
        else None),
      resolveInstalledVersion = (\<lambda>dir pkgName versionRange.
        if pkgName = ''express'' then
          (if dir = ''/repo/x''
           then Some \<lparr>Resolution.version = ''5.0.0'',
                      resolvedPath = ''/repo/x/node_modules/express''\<rparr>
           else Some \<lparr>Resolution.version = ''4.18.3'',
                      resolvedPath = ''/repo/y/node_modules/express''\<rparr>)
        else None)\<rparr>"

text \<open>
  Claim C4, as stated, fails when two workspaces share an identity: a workspace without
  alias at path \<^verbatim>\<open>/repo/x\<close> and a workspace with alias \<^verbatim>\<open>/repo/x\<close> pass validation;
  \<^verbatim>\<open>this.resolutionMap[alias] = {}\<close> of the second wipes the entry of the first, while
  \<^verbatim>\<open>allPackages\<close> keeps both. The record for \<^verbatim>\<open>express\<close> lists \<^verbatim>\<open>/repo/x\<close> under
  \<^verbatim>\<open>5.0.0\<close>, and the resolution map gives \<^verbatim>\<open>/repo/x\<close> the version \<^verbatim>\<open>4.18.3\<close> only.
\<close>

theorem analyze_shared_identity_not_inverse:
  "validateWorkspaces (\<lambda>p. True) ex_clash_cfg = Inr ()
   \<and> conflicts (analyze ex_clash_fs (new_PackageResolver ex_clash_cfg ''/repo'')) =
       [\<lparr>packageName = ''express'',
         versions = [(''5.0.0'', [''/repo/x'']), (''4.18.3'', [''/repo/x''])]\<rparr>]
   \<and> resolutionMap (analyze ex_clash_fs (new_PackageResolver ex_clash_cfg ''/repo'')) =
       [''/repo/x'' \<mapsto> [''express'' \<mapsto>
          \<lparr>Resolution.version = ''4.18.3'', resolvedPath = ''/repo/y/node_modules/express''\<rparr>]]
   \<and> \<not> resolves_to (resolutionMap (analyze ex_clash_fs (new_PackageResolver ex_clash_cfg ''/repo'')))
         ''/repo/x'' ''express'' ''5.0.0''"
proof -
  let ?r = "analyze ex_clash_fs (new_PackageResolver ex_clash_cfg ''/repo'')"
  have v: "validateWorkspaces (\<lambda>p. True) ex_clash_cfg = Inr ()"
    by (simp add: validateWorkspaces_def ex_clash_cfg_def ex_x_def ex_y_def truthy_def set_add_def)
  have c: "conflicts ?r =
       [\<lparr>packageName = ''express'',
         versions = [(''5.0.0'', [''/repo/x'']), (''4.18.3'', [''/repo/x''])]\<rparr>]"
    by (simp add: analyze_def new_PackageResolver_def ex_clash_cfg_def ex_x_def ex_y_def
        identity_def js_or_def truthy_def allDeps_def spread_def startsWith_def
        track_def detect_conflicts_def ex_clash_fs_def)
  have m: "resolutionMap ?r =
       [''/repo/x'' \<mapsto> [''express'' \<mapsto>
          \<lparr>Resolution.version = ''4.18.3'', resolvedPath = ''/repo/y/node_modules/express''\<rparr>]]"
    by (simp add: analyze_def new_PackageResolver_def ex_clash_cfg_def ex_x_def ex_y_def
        identity_def js_or_def truthy_def allDeps_def spread_def startsWith_def
        track_def ex_clash_fs_def)
  have n: "\<not> resolves_to (resolutionMap ?r) ''/repo/x'' ''express'' ''5.0.0''"
    unfolding m by (simp add: resolves_to_def)
  from v c m n show ?thesis by (intro conjI)
qed

text \<open>
  Claim C4, amended. After \<open>analyze\<close> has run on a newly constructed resolver over
  workspaces with pairwise distinct identities (\<^verbatim>\<open>alias || path\<close>): a conflict record for
  package \<open>p\<close> exists if and only if two workspaces' entries for \<open>p\<close> in the resolution map
  carry different version strings, and in that record workspace \<open>w\<close> is listed under
  version \<open>v\<close> if and only if the resolution map gives \<open>w\<close>'s entry for \<open>p\<close> version \<open>v\<close>.
\<close>

theorem analyze_conflicts_inverse:
  assumes "distinct (map identity (spinxConfig.workspace cfg))"
    and "r = analyze fs (new_PackageResolver cfg root)"
  shows "((\<exists>c \<in> set (conflicts r). packageName c = p) \<longleftrightarrow>
            (\<exists>w1 w2 v1 v2. v1 \<noteq> v2 \<and> resolves_to (resolutionMap r) w1 p v1
                \<and> resolves_to (resolutionMap r) w2 p v2))
     \<and> (\<forall>c \<in> set (conflicts r). packageName c = p \<longrightarrow>
           (\<forall>v w. w \<in> set (users_of (versions c) v) \<longleftrightarrow> resolves_to (resolutionMap r) w p v))"
proof -
  obtain rm ap where f:
    "fold (analyze_workspace fs) (spinxConfig.workspace cfg) (Map.empty, []) = (rm, ap)"
    by (cases "fold (analyze_workspace fs) (spinxConfig.workspace cfg) (Map.empty, [])")
  then have rm: "resolutionMap r = rm" and cs: "conflicts r = detect_conflicts ap"
    unfolding assms(2) by (simp_all add: analyze_def new_PackageResolver_def)
  have "packages_ok []" by (simp add: packages_ok_def)
  moreover have "\<forall>w p v. listed [] w p v \<longleftrightarrow> resolves_to Map.empty w p v"
    by (simp add: listed_def users_of_def versions_of_def resolves_to_def)
  ultimately have ok: "packages_ok ap" and inv: "\<forall>w p v. listed ap w p v \<longleftrightarrow> resolves_to rm w p v"
    using analyze_workspaces_inv[OF assms(1) _ _ _ f] by auto
  have "(\<exists>c \<in> set (conflicts r). packageName c = p) \<longleftrightarrow> (\<exists>vm. (p, vm) \<in> set ap \<and> length vm > 1)"
  proof
    assume "\<exists>c \<in> set (conflicts r). packageName c = p"
    then obtain c where "c \<in> set (detect_conflicts ap)" "packageName c = p" unfolding cs by blast
    then show "\<exists>vm. (p, vm) \<in> set ap \<and> length vm > 1"
      unfolding detect_conflicts_member by auto
  next
    assume "\<exists>vm. (p, vm) \<in> set ap \<and> length vm > 1"
    then obtain vm where "(p, vm) \<in> set ap" "length vm > 1" by blast
    then have "\<lparr>packageName = p, versions = vm\<rparr> \<in> set (detect_conflicts ap)"
      unfolding detect_conflicts_member by blast
    then show "\<exists>c \<in> set (conflicts r). packageName c = p"
      unfolding cs by (intro bexI[of _ "\<lparr>packageName = p, versions = vm\<rparr>"]) simp_all
  qed
  also have "\<dots> \<longleftrightarrow> (\<exists>w1 w2 v1 v2. v1 \<noteq> v2 \<and> listed ap w1 p v1 \<and> listed ap w2 p v2)"
    by (rule conflict_iff_two_versions[OF ok])
  finally have 1: "(\<exists>c \<in> set (conflicts r). packageName c = p) \<longleftrightarrow>
            (\<exists>w1 w2 v1 v2. v1 \<noteq> v2 \<and> resolves_to (resolutionMap r) w1 p v1
                \<and> resolves_to (resolutionMap r) w2 p v2)"
    unfolding rm by (simp add: inv)
  have 2: "\<forall>c \<in> set (conflicts r). packageName c = p \<longrightarrow>
           (\<forall>v w. w \<in> set (users_of (versions c) v) \<longleftrightarrow> resolves_to (resolutionMap r) w p v)"
  proof (intro ballI impI allI)
    fix c v w assume c: "c \<in> set (conflicts r)" and pc: "packageName c = p"
    from c obtain q vm where m: "(q, vm) \<in> set ap" and ceq: "c = \<lparr>packageName = q, versions = vm\<rparr>"
      unfolding cs detect_conflicts_member by blast
    with pc have "q = p" by simp
    with m versions_of_member[OF ok] have "versions_of ap p = vm" by simp
    then have "w \<in> set (users_of (versions c) v) \<longleftrightarrow> listed ap w p v"
      by (simp add: listed_def ceq)
    then show "w \<in> set (users_of (versions c) v) \<longleftrightarrow> resolves_to (resolutionMap r) w p v"
      unfolding rm by (simp add: inv)
  qed
  from 1 2 show ?thesis by blast
qed


definition ex_fs :: FileSystem where
  "ex_fs =
     \<lparr>readPackageJson = (\<lambda>dir.
        if dir = ''/repo/orders'' then
          Some \<lparr>name = ''orders'', PackageJson.version = Some ''1.0.0'',
                PackageJson.dependencies = Some [(''express'', ''^5.0.0'')],
                devDependencies = None\<rparr>
        else if dir = ''/repo/cart'' then
          Some \<lparr>name = ''cart'', PackageJson.version = Some ''1.0.0'',
                PackageJson.dependencies = Some [(''express'', ''^4.18.0''), (''orders'', ''workspace:*'')],
                devDependencies = Some [(''express'', ''^4.18.3'')]\<rparr>
        else None),
      resolveInstalledVersion = (\<lambda>dir pkgName versionRange.
        if pkgName = ''express'' then
          (if dir = ''/repo/orders''
           then Some \<lparr>Resolution.version = ''5.0.0'',
                      resolvedPath = ''/repo/orders/node_modules/express''\<rparr>
           else Some \<lparr>Resolution.version = ''4.18.3'',
                      resolvedPath = ''/repo/cart/node_modules/express''\<rparr>)
        else None)\<rparr>"

lemma ex_fs_analyze:
  "conflicts (analyze ex_fs (new_PackageResolver ex_shop_cfg ''/repo'')) =
     [\<lparr>packageName = ''express'',
       versions = [(''5.0.0'', [''@orders'']), (''4.18.3'', [''@cart''])]\<rparr>]"
  "resolves_to (resolutionMap (analyze ex_fs (new_PackageResolver ex_shop_cfg ''/repo'')))
     ''@orders'' ''express'' ''5.0.0''"
  "resolves_to (resolutionMap (analyze ex_fs (new_PackageResolver ex_shop_cfg ''/repo'')))
     ''@cart'' ''express'' ''4.18.3''"
  by (simp_all add: analyze_def new_PackageResolver_def ex_shop_cfg_def ex_utils_def ex_orders_def
      ex_cart_def identity_def js_or_def truthy_def allDeps_def spread_def startsWith_def
      track_def detect_conflicts_def ex_fs_def resolves_to_def)

theorem analyze_conflicts_inverse_witness:
  "conflicts (analyze ex_fs (new_PackageResolver ex_shop_cfg ''/repo'')) =
     [\<lparr>packageName = ''express'',
       versions = [(''5.0.0'', [''@orders'']), (''4.18.3'', [''@cart''])]\<rparr>]
   \<and> ''@cart'' \<in> set (users_of
         (versions (hd (conflicts (analyze ex_fs (new_PackageResolver ex_shop_cfg ''/repo''))))) ''4.18.3'')"
proof -
  let ?r = "analyze ex_fs (new_PackageResolver ex_shop_cfg ''/repo'')"
  have d: "distinct (map identity (spinxConfig.workspace ex_shop_cfg))"
    by (simp add: ex_shop_cfg_def ex_utils_def ex_orders_def ex_cart_def identity_def js_or_def
        truthy_def)
  have c: "hd (conflicts ?r) \<in> set (conflicts ?r)" "packageName (hd (conflicts ?r)) = ''express''"
    by (simp_all add: ex_fs_analyze(1))
  from analyze_conflicts_inverse[OF d refl, of ex_fs "''/repo''" "''express''", THEN conjunct2,
      rule_format, OF c, of "''@cart''" "''4.18.3''"] ex_fs_analyze(3)
  have "''@cart'' \<in> set (users_of (versions (hd (conflicts ?r))) ''4.18.3'')" by simp
  with ex_fs_analyze(1) show ?thesis by simp
qed

section \<open>Structure of the constructed graph\<close>

text \<open>The dependency lists of a key (empty for an alias that is not a node).\<close>

definition deps_of :: "Graph \<Rightarrow> string \<Rightarrow> string list" where
  "deps_of nodes a = (case map_of nodes a of None \<Rightarrow> [] | Some node \<Rightarrow> dependencies node)"

definition dependents_of :: "Graph \<Rightarrow> string \<Rightarrow> string list" where
  "dependents_of nodes a = (case map_of nodes a of None \<Rightarrow> [] | Some node \<Rightarrow> dependents node)"

text \<open>The dependency relation: \<open>(a, d)\<close> when node \<open>a\<close> lists \<open>d\<close> among its dependencies.\<close>

definition dep_rel :: "Graph \<Rightarrow> (string \<times> string) set" where
  "dep_rel nodes = {(a, d). d \<in> set (deps_of nodes a)}"

text \<open>Every declared dependency names a node of the graph.\<close>

definition deps_known :: "Graph \<Rightarrow> bool" where
  "deps_known nodes = (\<forall>(a, node) \<in> set nodes. \<forall>d \<in> set (dependencies node). d \<in> fst ` set nodes)"

text \<open>What \<open>buildGraph\<close> establishes: distinct keys, no repetition in the two edge lists,
  and \<open>dependents\<close> is the reverse of \<open>dependencies\<close> between nodes.\<close>

definition graph_ok :: "Graph \<Rightarrow> bool" where
  "graph_ok nodes \<longleftrightarrow>
     distinct (map fst nodes) \<and>
     (\<forall>a. distinct (deps_of nodes a) \<and> distinct (dependents_of nodes a)) \<and>
     (\<forall>a d. d \<in> set (dependents_of nodes a) \<longleftrightarrow>
        a \<in> fst ` set nodes \<and> d \<in> fst ` set nodes \<and> a \<in> set (deps_of nodes d))"

lemma distinct_fold_set_add: "distinct acc \<Longrightarrow> distinct (fold set_add xs acc)"
  by (induction xs arbitrary: acc) (auto simp: set_add_def)

lemma distinct_new_Set: "distinct (new_Set xs)"
  by (simp add: new_Set_def distinct_fold_set_add)

definition fresh_nodes :: "Graph \<Rightarrow> bool" where
  "fresh_nodes nodes \<longleftrightarrow>
     distinct (map fst nodes) \<and>
     (\<forall>(a, node) \<in> set nodes. distinct (dependencies node) \<and> dependents node = [])"

lemma fresh_nodes_update:
  assumes "fresh_nodes nodes" and "distinct (dependencies node)" and "dependents node = []"
  shows "fresh_nodes (AList.update a node nodes)"
proof -
  have "set (AList.update a node nodes) \<subseteq> insert (a, node) (set nodes)"
    by (rule set_update_subset)
  with assms show ?thesis unfolding fresh_nodes_def by (auto simp: distinct_update)
qed

lemma fresh_nodes_new_node: "fresh_nodes nodes \<Longrightarrow> fresh_nodes (AList.update a (new_node ws) nodes)"
  by (rule fresh_nodes_update) (simp_all add: new_node_def distinct_new_Set)

lemma fresh_init_nodes: "fresh_nodes (init_nodes wss)"
proof -
  have "fresh_nodes acc \<Longrightarrow>
        fresh_nodes (fold (\<lambda>ws nodes. AList.update (identity ws) (new_node ws) nodes) wss acc)" for acc
    by (induction wss arbitrary: acc) (simp_all add: fresh_nodes_new_node)
  from this[of "[]"] show ?thesis by (simp add: init_nodes_def fresh_nodes_def)
qed

lemma add_dependent_keys: "map fst (add_dependent a dep nodes) = map fst nodes"
proof (cases "map_of nodes dep")
  case None
  then show ?thesis by (simp add: add_dependent_def)
next
  case (Some n)
  then have "dep \<in> set (map fst nodes)" by (metis map_of_eq_None_iff option.distinct(1) set_map)
  with Some show ?thesis by (simp add: add_dependent_def update_keys)
qed

lemma add_dependent_deps: "deps_of (add_dependent a dep nodes) k = deps_of nodes k"
  by (cases "map_of nodes dep") (auto simp: add_dependent_def deps_of_def update_conv')

lemma add_dependent_dependents:
  "dependents_of (add_dependent a dep nodes) k =
     (if k = dep \<and> dep \<in> fst ` set nodes then set_add a (dependents_of nodes k)
      else dependents_of nodes k)"
proof (cases "map_of nodes dep")
  case None
  then have "dep \<notin> fst ` set nodes" by (simp add: map_of_eq_None_iff)
  with None show ?thesis by (simp add: add_dependent_def)
next
  case (Some n)
  then have "dep \<in> fst ` set nodes" by (metis map_of_eq_None_iff option.distinct(1))
  with Some show ?thesis by (auto simp: add_dependent_def dependents_of_def update_conv')
qed

lemma add_dependent_keys_set: "fst ` set (add_dependent a dep nodes) = fst ` set nodes"
proof -
  have "set (map fst (add_dependent a dep nodes)) = set (map fst nodes)"
    by (simp only: add_dependent_keys)
  then show ?thesis by simp
qed

lemma fold_add_dependent_keys: "map fst (fold (add_dependent a) ds nodes) = map fst nodes"
  by (induction ds arbitrary: nodes) (simp_all add: add_dependent_keys)

lemma fold_add_dependent_deps: "deps_of (fold (add_dependent a) ds nodes) k = deps_of nodes k"
  by (induction ds arbitrary: nodes) (simp_all add: add_dependent_deps)

lemma fold_add_dependent_dependents:
  "set (dependents_of (fold (add_dependent a) ds nodes) k) =
     set (dependents_of nodes k) \<union> (if k \<in> set ds \<and> k \<in> fst ` set nodes then {a} else {})"
proof (induction ds arbitrary: nodes)
  case Nil
  show ?case by simp
next
  case (Cons d ds)
  have "set (dependents_of (fold (add_dependent a) (d # ds) nodes) k) =
        set (dependents_of (add_dependent a d nodes) k)
          \<union> (if k \<in> set ds \<and> k \<in> fst ` set (add_dependent a d nodes) then {a} else {})"
    using Cons.IH[of "add_dependent a d nodes"] by simp
  also have "\<dots> = set (dependents_of nodes k)
          \<union> (if k \<in> set (d # ds) \<and> k \<in> fst ` set nodes then {a} else {})"
    by (cases "k = d"; cases "d \<in> fst ` set nodes"; cases "k \<in> set ds")
       (simp_all add: set_set_add add_dependent_keys_set add_dependent_dependents)
  finally show ?case .
qed

lemma fold_add_dependent_distinct:
  "distinct (dependents_of nodes k) \<Longrightarrow> distinct (dependents_of (fold (add_dependent a) ds nodes) k)"
proof (induction ds arbitrary: nodes)
  case Nil
  then show ?case by simp
next
  case (Cons d ds)
  from Cons.prems have "distinct (dependents_of (add_dependent a d nodes) k)"
    by (cases "k = d") (simp_all add: add_dependent_dependents set_add_def)
  from Cons.IH[OF this] show ?case by simp
qed


lemma build_step_facts:
  fixes ps :: Graph
  defines "step \<equiv> (\<lambda>(a, node) nodes. fold (add_dependent a) (dependencies node) nodes)"
  shows "map fst (fold step ps g) = map fst g"
    and "deps_of (fold step ps g) k = deps_of g k"
    and "set (dependents_of (fold step ps g) k) =
           set (dependents_of g k) \<union>
           {a. \<exists>node. (a, node) \<in> set ps \<and> k \<in> set (dependencies node) \<and> k \<in> fst ` set g}"
    and "distinct (dependents_of g k) \<Longrightarrow> distinct (dependents_of (fold step ps g) k)"
proof -
  have keys: "map fst (fold step ps g) = map fst g" for ps g
    by (induction ps arbitrary: g) (auto simp: step_def fold_add_dependent_keys)
  then have keys_set: "fst ` set (fold step ps g) = fst ` set g" for ps g
    by (metis set_map)
  show "map fst (fold step ps g) = map fst g" by (rule keys)
  show "deps_of (fold step ps g) k = deps_of g k"
    by (induction ps arbitrary: g) (auto simp: step_def fold_add_dependent_deps)
  show "set (dependents_of (fold step ps g) k) =
           set (dependents_of g k) \<union>
           {a. \<exists>node. (a, node) \<in> set ps \<and> k \<in> set (dependencies node) \<and> k \<in> fst ` set g}"
  proof (induction ps arbitrary: g)
    case Nil
    show ?case by simp
  next
    case (Cons p ps)
    obtain a node where p: "p = (a, node)" by (cases p)
    let ?g1 = "fold (add_dependent a) (dependencies node) g"
    have k1: "fst ` set ?g1 = fst ` set g"
      using fold_add_dependent_keys[of a "dependencies node" g] by (metis set_map)
    have "set (dependents_of (fold step (p # ps) g) k) = set (dependents_of (fold step ps ?g1) k)"
      by (simp add: p step_def)
    also have "\<dots> = set (dependents_of ?g1 k) \<union>
           {a. \<exists>node. (a, node) \<in> set ps \<and> k \<in> set (dependencies node) \<and> k \<in> fst ` set g}"
      unfolding Cons.IH k1 ..
    also have "set (dependents_of ?g1 k) =
        set (dependents_of g k) \<union> (if k \<in> set (dependencies node) \<and> k \<in> fst ` set g then {a} else {})"
      by (rule fold_add_dependent_dependents)
    finally show ?case unfolding p by auto
  qed
  show "distinct (dependents_of g k) \<Longrightarrow> distinct (dependents_of (fold step ps g) k)"
    by (induction ps arbitrary: g) (auto simp: step_def fold_add_dependent_distinct)
qed

lemma fresh_nodes_dependents: "fresh_nodes nodes \<Longrightarrow> dependents_of nodes k = []"
  by (auto simp: fresh_nodes_def dependents_of_def split: option.splits dest!: map_of_SomeD)

lemma fresh_nodes_deps: "fresh_nodes nodes \<Longrightarrow> distinct (deps_of nodes k)"
  by (auto simp: fresh_nodes_def deps_of_def split: option.splits dest!: map_of_SomeD)

lemma graph_ok_build_dependents:
  assumes "fresh_nodes nodes0"
  shows "graph_ok (build_dependents nodes0)"
proof -
  let ?G = "build_dependents nodes0"
  note facts = build_step_facts[where ps = nodes0 and g = nodes0, folded build_dependents_def]
  have keys: "fst ` set ?G = fst ` set nodes0" using facts(1) by (metis set_map)
  have d0: "distinct (map fst nodes0)" using assms by (simp add: fresh_nodes_def)
  have "distinct (map fst ?G)" using facts(1) d0 by simp
  moreover have "distinct (deps_of ?G a) \<and> distinct (dependents_of ?G a)" for a
    using facts(2)[of a] facts(4)[of a] fresh_nodes_deps[OF assms, of a]
      fresh_nodes_dependents[OF assms, of a] by simp
  moreover have "d \<in> set (dependents_of ?G a) \<longleftrightarrow>
        a \<in> fst ` set ?G \<and> d \<in> fst ` set ?G \<and> a \<in> set (deps_of ?G d)" for a d
  proof -
    have "d \<in> set (dependents_of ?G a) \<longleftrightarrow>
        (\<exists>node. (d, node) \<in> set nodes0 \<and> a \<in> set (dependencies node) \<and> a \<in> fst ` set nodes0)"
      unfolding facts(3) fresh_nodes_dependents[OF assms] by simp
    also have "\<dots> \<longleftrightarrow> a \<in> fst ` set nodes0 \<and> d \<in> fst ` set nodes0 \<and> a \<in> set (deps_of nodes0 d)"
      using d0 by (auto simp: deps_of_def split: option.splits) (force simp: image_iff)+
    finally show ?thesis unfolding keys facts(2) .
  qed
  ultimately show ?thesis unfolding graph_ok_def by blast
qed

lemma graph_ok_buildGraph: "graph_ok (buildGraph cfg)"
  unfolding buildGraph_def by (rule graph_ok_build_dependents[OF fresh_init_nodes])

text \<open>The keys of the graph are the identities of the declared workspaces, and the
  dependencies of a key are those of the last declaration with that identity
  (\<^verbatim>\<open>Map.set\<close> overwrites).\<close>

lemma find_snoc:
  "find P (xs @ [w]) = (case find P xs of None \<Rightarrow> if P w then Some w else None | Some x \<Rightarrow> Some x)"
  by (induction xs) simp_all

lemma map_of_fold_new_node:
  "map_of (fold (\<lambda>ws nodes. AList.update (identity ws) (new_node ws) nodes) wss acc) k =
     (case find (\<lambda>ws. identity ws = k) (rev wss) of
        None \<Rightarrow> map_of acc k
      | Some ws \<Rightarrow> Some (new_node ws))"
proof (induction wss arbitrary: acc)
  case Nil
  show ?case by simp
next
  case (Cons w wss)
  show ?case
    by (cases "find (\<lambda>ws. identity ws = k) (rev wss)")
       (simp_all add: Cons.IH find_snoc update_conv')
qed

lemma keys_fold_new_node:
  "fst ` set (fold (\<lambda>ws nodes. AList.update (identity ws) (new_node ws) nodes) wss acc) =
     fst ` set acc \<union> identity ` set wss"
  by (induction wss arbitrary: acc) (auto simp: dom_update)

lemma keys_buildGraph: "fst ` set (buildGraph cfg) = identity ` set (spinxConfig.workspace cfg)"
proof -
  have "map fst (buildGraph cfg) = map fst (init_nodes (spinxConfig.workspace cfg))"
    unfolding buildGraph_def build_dependents_def by (rule build_step_facts(1))
  then have "fst ` set (buildGraph cfg) = fst ` set (init_nodes (spinxConfig.workspace cfg))"
    by (metis set_map)
  then show ?thesis by (simp add: init_nodes_def keys_fold_new_node)
qed

lemma deps_of_buildGraph:
  "deps_of (buildGraph cfg) k =
     (case find (\<lambda>ws. identity ws = k) (rev (spinxConfig.workspace cfg)) of
        None \<Rightarrow> []
      | Some ws \<Rightarrow> new_Set (case dependsOn ws of None \<Rightarrow> [] | Some ds \<Rightarrow> ds))"
proof -
  have "deps_of (buildGraph cfg) k = deps_of (init_nodes (spinxConfig.workspace cfg)) k"
    unfolding buildGraph_def build_dependents_def by (rule build_step_facts(2))
  also have "\<dots> = (case find (\<lambda>ws. identity ws = k) (rev (spinxConfig.workspace cfg)) of
        None \<Rightarrow> []
      | Some ws \<Rightarrow> dependencies (new_node ws))"
    unfolding deps_of_def init_nodes_def map_of_fold_new_node
    by (cases "find (\<lambda>ws. identity ws = k) (rev (spinxConfig.workspace cfg))") simp_all
  also have "\<dots> = (case find (\<lambda>ws. identity ws = k) (rev (spinxConfig.workspace cfg)) of
        None \<Rightarrow> []
      | Some ws \<Rightarrow> new_Set (case dependsOn ws of None \<Rightarrow> [] | Some ds \<Rightarrow> ds))"
    by (cases "find (\<lambda>ws. identity ws = k) (rev (spinxConfig.workspace cfg))")
       (simp_all add: new_node_def)
  finally show ?thesis .
qed

section \<open>Parallel batches\<close>

lemma deps_of_member:
  assumes "d \<in> set (deps_of nodes a)"
  shows "\<exists>node. (a, node) \<in> set nodes \<and> d \<in> set (dependencies node)"
proof (cases "map_of nodes a")
  case None
  with assms show ?thesis by (simp add: deps_of_def)
next
  case (Some node)
  then have "(a, node) \<in> set nodes" by (rule map_of_SomeD)
  with assms Some show ?thesis by (auto simp: deps_of_def)
qed

lemma finite_dep_rel: "finite (dep_rel nodes)"
proof -
  have "dep_rel nodes \<subseteq> fst ` set nodes \<times> (\<Union>p \<in> set nodes. set (dependencies (snd p)))"
  proof
    fix x assume "x \<in> dep_rel nodes"
    then obtain a d where x: "x = (a, d)" and "d \<in> set (deps_of nodes a)"
      by (auto simp: dep_rel_def)
    from deps_of_member[OF this(2)] obtain node where "(a, node) \<in> set nodes"
      "d \<in> set (dependencies node)" by blast
    then show "x \<in> fst ` set nodes \<times> (\<Union>p \<in> set nodes. set (dependencies (snd p)))"
      unfolding x by force
  qed
  then show ?thesis by (rule finite_subset) auto
qed

lemma deps_known_subset:
  assumes "deps_known nodes"
  shows "set (deps_of nodes a) \<subseteq> fst ` set nodes"
proof (cases "map_of nodes a")
  case None
  then show ?thesis by (simp add: deps_of_def)
next
  case (Some node)
  then have "(a, node) \<in> set nodes" by (rule map_of_SomeD)
  with assms Some show ?thesis by (auto simp: deps_known_def deps_of_def)
qed

lemma acyclic_has_ready:
  assumes "deps_known nodes" and "acyclic (dep_rel nodes)"
    and "D \<subseteq> fst ` set nodes" and "fst ` set nodes - D \<noteq> {}"
  shows "\<exists>k \<in> fst ` set nodes - D. set (deps_of nodes k) \<subseteq> D"
proof -
  have "wf ((dep_rel nodes)\<inverse>)"
    by (rule finite_acyclic_wf_converse[OF finite_dep_rel assms(2)])
  from assms(4) obtain x where "x \<in> fst ` set nodes - D" by blast
  from wfE_min[OF \<open>wf ((dep_rel nodes)\<inverse>)\<close> this] obtain z where
    z: "z \<in> fst ` set nodes - D" and m: "\<And>y. (y, z) \<in> (dep_rel nodes)\<inverse> \<Longrightarrow> y \<notin> fst ` set nodes - D"
    by blast
  have "set (deps_of nodes z) \<subseteq> D"
  proof
    fix d assume d: "d \<in> set (deps_of nodes z)"
    then have "(d, z) \<in> (dep_rel nodes)\<inverse>" by (simp add: dep_rel_def)
    from m[OF this] deps_known_subset[OF assms(1), of z] d show "d \<in> D" by blast
  qed
  with z show ?thesis by blast
qed

lemma dec_present_map_of:
  "map_of (dec_present d m) k = (if k = d then map_option (\<lambda>x. x - 1) (map_of m d) else map_of m k)"
  by (cases "map_of m d") (auto simp: dec_present_def update_conv')

lemma fold_dec_present_map_of:
  "distinct ds \<Longrightarrow>
   map_of (fold dec_present ds m) k = map_option (\<lambda>x. x - (if k \<in> set ds then 1 else 0)) (map_of m k)"
proof (induction ds arbitrary: m)
  case Nil
  show ?case by (simp add: option.map_ident)
next
  case (Cons d ds)
  then have "map_of (fold dec_present (d # ds) m) k =
      map_option (\<lambda>x. x - (if k \<in> set ds then 1 else 0)) (map_of (dec_present d m) k)"
    by simp
  also have "\<dots> = map_option (\<lambda>x. x - (if k \<in> set (d # ds) then 1 else 0)) (map_of m k)"
    using Cons.prems by (cases "map_of m k") (auto simp: dec_present_map_of)
  finally show ?case .
qed

lemma remove_processed_map_of:
  assumes "graph_ok nodes" and "a \<in> fst ` set nodes"
  shows "\<exists>m'. remove_processed nodes a m = Inr m' \<and>
     (\<forall>k. map_of m' k =
        (if k = a then None
         else map_option (\<lambda>x. x - (if k \<in> set (dependents_of nodes a) then 1 else 0)) (map_of m k)))"
proof -
  from assms(2) obtain node where n: "map_of nodes a = Some node"
    by (metis map_of_eq_None_iff not_Some_eq)
  then have dn: "dependents_of nodes a = dependents node" by (simp add: dependents_of_def)
  with assms(1) have d: "distinct (dependents node)" by (metis graph_ok_def)
  have "remove_processed nodes a m = Inr (fold dec_present (dependents node) (AList.delete a m))"
    using n by (simp add: remove_processed_def)
  moreover have "map_of (fold dec_present (dependents node) (AList.delete a m)) k =
        (if k = a then None
         else map_option (\<lambda>x. x - (if k \<in> set (dependents_of nodes a) then 1 else 0)) (map_of m k))" for k
    unfolding fold_dec_present_map_of[OF d] dn by (simp add: delete_conv')
  ultimately show ?thesis by blast
qed

lemma foldE_remove_processed_map_of:
  assumes "graph_ok nodes"
  shows "distinct as \<Longrightarrow> set as \<subseteq> fst ` set nodes \<Longrightarrow>
     \<exists>m'. foldE (remove_processed nodes) as m = Inr m' \<and>
     (\<forall>k. map_of m' k =
        (if k \<in> set as then None
         else map_option (\<lambda>x. x - int (card {a \<in> set as. k \<in> set (dependents_of nodes a)})) (map_of m k)))"
proof (induction as arbitrary: m)
  case Nil
  show ?case by (simp add: option.map_ident)
next
  case (Cons a as)
  from Cons.prems have a: "a \<in> fst ` set nodes" "a \<notin> set as" and as: "distinct as" "set as \<subseteq> fst ` set nodes"
    by auto
  from remove_processed_map_of[OF assms a(1), of m] obtain m1 where
    m1: "remove_processed nodes a m = Inr m1"
    and k1: "\<And>k. map_of m1 k =
        (if k = a then None
         else map_option (\<lambda>x. x - (if k \<in> set (dependents_of nodes a) then 1 else 0)) (map_of m k))"
    by blast
  from Cons.IH[OF as, of m1] obtain m' where
    m': "foldE (remove_processed nodes) as m1 = Inr m'"
    and k': "\<And>k. map_of m' k =
        (if k \<in> set as then None
         else map_option (\<lambda>x. x - int (card {a \<in> set as. k \<in> set (dependents_of nodes a)})) (map_of m1 k))"
    by blast
  have "map_of m' k =
        (if k \<in> set (a # as) then None
         else map_option (\<lambda>x. x - int (card {a' \<in> set (a # as). k \<in> set (dependents_of nodes a')})) (map_of m k))" for k
  proof (cases "k \<in> set (a # as)")
    case True
    then show ?thesis unfolding k' k1 by auto
  next
    case False
    have split: "{a' \<in> set (a # as). k \<in> set (dependents_of nodes a')} =
        (if k \<in> set (dependents_of nodes a) then {a} else {}) \<union> {a' \<in> set as. k \<in> set (dependents_of nodes a')}"
      by auto
    have "card {a' \<in> set (a # as). k \<in> set (dependents_of nodes a')} =
        (if k \<in> set (dependents_of nodes a) then 1 else 0) + card {a' \<in> set as. k \<in> set (dependents_of nodes a')}"
      unfolding split using a(2) by (subst card_Un_disjoint) auto
    with False show ?thesis unfolding k' k1 by (cases "map_of m k") auto
  qed
  with m1 m' show ?case by auto
qed

text \<open>The state of the batch loop: the nodes not yet batched are the keys of \<open>inDegree\<close>,
  each with the number of its dependencies not yet batched, and every batched node has
  all its dependencies in earlier batches.\<close>

definition batches_deg :: "Graph \<Rightarrow> (string \<times> int) list \<Rightarrow> string list list \<Rightarrow> bool" where
  "batches_deg nodes inDegree batches \<longleftrightarrow>
     fst ` set inDegree \<union> set (concat batches) = fst ` set nodes \<and>
     (\<forall>k \<in> fst ` set inDegree.
        map_of inDegree k = Some (int (card (set (deps_of nodes k) - set (concat batches))))) \<and>
     (\<forall>i<length batches. \<forall>a \<in> set (batches ! i).
        set (deps_of nodes a) \<subseteq> set (concat (take i batches)))"

lemma zero_batch_member:
  "distinct (map fst m) \<Longrightarrow> k \<in> set (zero_batch m) \<longleftrightarrow> map_of m k = Some 0"
  by (auto simp: zero_batch_def image_iff)

lemma init_inDegree_map_of_aux:
  "distinct (map fst nodes) \<Longrightarrow> fst ` set m0 \<inter> fst ` set nodes = {} \<Longrightarrow>
   map_of (fold (\<lambda>(a, node) m. AList.update a (f node) m) nodes m0) k =
     (case map_of nodes k of None \<Rightarrow> map_of m0 k | Some node \<Rightarrow> Some (f node))"
proof (induction nodes arbitrary: m0)
  case Nil
  show ?case by simp
next
  case (Cons p nodes)
  obtain a node where p: "p = (a, node)" by (cases p)
  from Cons.prems p have d: "distinct (map fst nodes)" and a: "a \<notin> fst ` set nodes"
    and dis: "fst ` set (AList.update a (f node) m0) \<inter> fst ` set nodes = {}"
    by (auto simp: dom_update)
  from a have na: "map_of nodes a = None" by (simp add: map_of_eq_None_iff)
  show ?case unfolding p using Cons.IH[OF d dis] na
    by (auto simp: update_conv' split: option.splits)
qed

lemma init_inDegree_map_of:
  assumes "graph_ok nodes" and "k \<in> fst ` set nodes"
  shows "map_of (init_inDegree nodes) k = Some (int (card (set (deps_of nodes k))))"
proof -
  from assms(1) have d: "distinct (map fst nodes)" and dd: "distinct (deps_of nodes k)"
    by (simp_all add: graph_ok_def)
  from assms(2) obtain node where n: "map_of nodes k = Some node"
    by (metis map_of_eq_None_iff not_Some_eq)
  have "map_of (init_inDegree nodes) k = Some (int (length (dependencies node)))"
    unfolding init_inDegree_def
    using init_inDegree_map_of_aux[OF d, of "[]" "\<lambda>node. int (length (dependencies node))" k] n
    by simp
  also have "length (dependencies node) = card (set (deps_of nodes k))"
    using dd n by (simp add: deps_of_def distinct_card)
  finally show ?thesis .
qed

lemma batches_deg_init:
  assumes "graph_ok nodes"
  shows "batches_deg nodes (init_inDegree nodes) []"
  unfolding batches_deg_def using init_inDegree_map_of[OF assms]
  by (simp add: keys_init_inDegree)

lemma batches_deg_step:
  assumes ok: "graph_ok nodes"
    and inv: "batches_inv nodes inDegree batches" and deg: "batches_deg nodes inDegree batches"
  shows "\<exists>inDegree'. foldE (remove_processed nodes) (zero_batch inDegree) inDegree = Inr inDegree'
           \<and> batches_deg nodes inDegree' (batches @ [zero_batch inDegree])"
proof -
  let ?B = "zero_batch inDegree" and ?D = "set (concat batches)" and ?K = "fst ` set nodes"
  note i = inv[unfolded batches_inv_def]
  note dk = i[THEN conjunct1] and sub = i[THEN conjunct2, THEN conjunct1]
    and disj = i[THEN conjunct2, THEN conjunct2, THEN conjunct2, THEN conjunct2]
  note d = deg[unfolded batches_deg_def]
  note cover = d[THEN conjunct1] and degs = d[THEN conjunct2, THEN conjunct1, rule_format]
    and prev = d[THEN conjunct2, THEN conjunct2, rule_format]
  have D': "set (concat (batches @ [?B])) = ?D \<union> set ?B" by simp
  have dB: "distinct ?B" by (rule distinct_zero_batch[OF dk])
  have Bsub: "set ?B \<subseteq> fst ` set inDegree" by (rule zero_batch_subset)
  with sub have BK: "set ?B \<subseteq> ?K" by blast
  from foldE_remove_processed_map_of[OF ok dB BK, of inDegree] obtain m' where
    m': "foldE (remove_processed nodes) ?B inDegree = Inr m'"
    and mk: "\<And>k. map_of m' k =
        (if k \<in> set ?B then None
         else map_option (\<lambda>x. x - int (card {a \<in> set ?B. k \<in> set (dependents_of nodes a)}))
                (map_of inDegree k))"
    by blast
  have "set (map fst m') = set (filter (\<lambda>k. k \<notin> set ?B) (map fst inDegree))"
    by (simp only: keys_foldE_remove_processed[OF m'])
  then have keys': "fst ` set m' = fst ` set inDegree - set ?B" by auto
  have Bdeps: "set (deps_of nodes a) \<subseteq> ?D" if "a \<in> set ?B" for a
  proof -
    from that Bsub have ak: "a \<in> fst ` set inDegree" by blast
    from that have z: "map_of inDegree a = Some 0" by (simp add: zero_batch_member[OF dk])
    with degs[OF ak] have "card (set (deps_of nodes a) - ?D) = 0" by simp
    then have "set (deps_of nodes a) - ?D = {}" by simp
    then show ?thesis by blast
  qed
  have 1: "fst ` set m' \<union> set (concat (batches @ [?B])) = ?K"
    unfolding keys' D' using cover Bsub by blast
  have 2: "map_of m' k = Some (int (card (set (deps_of nodes k) - set (concat (batches @ [?B])))))"
    if k: "k \<in> fst ` set m'" for k
  proof -
    from k keys' have kin: "k \<in> fst ` set inDegree" and kB: "k \<notin> set ?B" by blast+
    from kin sub have kK: "k \<in> ?K" by blast
    let ?A = "set (deps_of nodes k) - ?D"
    have cnt: "{a \<in> set ?B. k \<in> set (dependents_of nodes a)} = ?A \<inter> set ?B"
    proof -
      have "k \<in> set (dependents_of nodes a) \<longleftrightarrow> a \<in> set (deps_of nodes k)" if "a \<in> set ?B" for a
        using ok that BK kK unfolding graph_ok_def by blast
      moreover have "a \<notin> ?D" if "a \<in> set ?B" for a using that Bsub disj by blast
      ultimately show ?thesis by blast
    qed
    have "map_of m' k = map_option (\<lambda>x. x - int (card (?A \<inter> set ?B))) (map_of inDegree k)"
      using mk[of k] kB unfolding cnt by simp
    also have "\<dots> = Some (int (card ?A) - int (card (?A \<inter> set ?B)))"
      unfolding degs[OF kin] by simp
    also have "int (card ?A) - int (card (?A \<inter> set ?B)) = int (card (?A - set ?B))"
    proof -
      have "card (?A - set ?B) = card ?A - card (?A \<inter> set ?B)"
        by (rule card_Diff_subset_Int) simp
      moreover have "card (?A \<inter> set ?B) \<le> card ?A" by (rule card_mono) auto
      ultimately show ?thesis by simp
    qed
    also have "?A - set ?B = set (deps_of nodes k) - set (concat (batches @ [?B]))"
      unfolding D' by blast
    finally show ?thesis .
  qed
  have 3: "set (deps_of nodes a) \<subseteq> set (concat (take i (batches @ [?B])))"
    if "i < length (batches @ [?B])" "a \<in> set ((batches @ [?B]) ! i)" for i a
  proof (cases "i < length batches")
    case True
    with that(2) have "a \<in> set (batches ! i)" by (simp add: nth_append)
    from prev[OF True this] True show ?thesis by simp
  next
    case False
    with that have "i = length batches" "a \<in> set ?B" by (simp_all add: nth_append)
    with Bdeps show ?thesis by simp
  qed
  have "batches_deg nodes m' (batches @ [?B])"
    unfolding batches_deg_def
  proof (intro conjI ballI allI impI)
    show "fst ` set m' \<union> set (concat (batches @ [?B])) = ?K" by (rule 1)
  next
    fix k assume "k \<in> fst ` set m'"
    then show "map_of m' k = Some (int (card (set (deps_of nodes k) - set (concat (batches @ [?B])))))"
      by (rule 2)
  next
    fix i a assume "i < length (batches @ [?B])" "a \<in> set ((batches @ [?B]) ! i)"
    then show "set (deps_of nodes a) \<subseteq> set (concat (take i (batches @ [?B])))" by (rule 3)
  qed
  with m' show ?thesis by (intro exI conjI)
qed

lemma batches_loop_complete:
  "batches_inv nodes inDegree batches \<Longrightarrow> batches_deg nodes inDegree batches \<Longrightarrow>
   graph_ok nodes \<Longrightarrow> deps_known nodes \<Longrightarrow> acyclic (dep_rel nodes) \<Longrightarrow>
    \<exists>bs. batches_loop nodes inDegree batches = Inr bs \<and> batches_inv nodes [] bs \<and> batches_deg nodes [] bs"
proof (induction nodes inDegree batches rule: batches_loop.induct)
  case (1 nodes inDegree batches)
  note ok = "1.prems"(3) and known = "1.prems"(4) and acyc = "1.prems"(5)
  show ?case
  proof (cases "length inDegree > 0")
    case False
    then have "batches_loop nodes inDegree batches = Inr batches"
      by (subst batches_loop.simps) (simp del: batches_loop.simps)
    moreover from False have "inDegree = []" by simp
    ultimately have "batches_loop nodes inDegree batches = Inr batches
        \<and> batches_inv nodes [] batches \<and> batches_deg nodes [] batches"
      using "1.prems"(1,2) by (simp del: batches_loop.simps)
    then show ?thesis by (rule exI)
  next
    case True
    let ?B = "zero_batch inDegree"
    note i = "1.prems"(1)[unfolded batches_inv_def]
    note dk = i[THEN conjunct1]
      and Dsub = i[THEN conjunct2, THEN conjunct2, THEN conjunct2, THEN conjunct1]
      and disj = i[THEN conjunct2, THEN conjunct2, THEN conjunct2, THEN conjunct2]
    note d = "1.prems"(2)[unfolded batches_deg_def]
    note cover = d[THEN conjunct1] and degs = d[THEN conjunct2, THEN conjunct1, rule_format]
    from True obtain p ps where "inDegree = p # ps" by (cases inDegree) auto
    then have "fst p \<in> fst ` set inDegree" by simp
    then obtain x where x: "x \<in> fst ` set inDegree" ..
    have "fst ` set inDegree \<subseteq> fst ` set inDegree \<union> set (concat batches)" by (rule Un_upper1)
    then have sub: "fst ` set inDegree \<subseteq> fst ` set nodes" unfolding cover .
    from x disj have "x \<notin> set (concat batches)" by blast
    with x sub have "fst ` set nodes - set (concat batches) \<noteq> {}" by blast
    from acyclic_has_ready[OF known acyc Dsub this] obtain k where
      k: "k \<in> fst ` set nodes - set (concat batches)"
      and r: "set (deps_of nodes k) \<subseteq> set (concat batches)" by blast
    have "fst ` set nodes \<subseteq> fst ` set inDegree \<union> set (concat batches)"
      unfolding cover by (rule subset_refl)
    with k have kin: "k \<in> fst ` set inDegree" by blast
    note degs[OF kin]
    moreover from r have "set (deps_of nodes k) - set (concat batches) = {}" by blast
    ultimately have "map_of inDegree k = Some 0" by simp
    then have "k \<in> set ?B" by (simp add: zero_batch_member[OF dk])
    then have ne: "length ?B \<noteq> 0" by auto
    from batches_deg_step[OF ok "1.prems"(1,2)] obtain inDegree' where
      f: "foldE (remove_processed nodes) ?B inDegree = Inr inDegree'"
      and deg': "batches_deg nodes inDegree' (batches @ [?B])" by blast
    have inv': "batches_inv nodes inDegree' (batches @ [?B])"
      by (rule batches_inv_step[OF "1.prems"(1) f])
    have "batches_loop nodes inDegree batches = batches_loop nodes inDegree' (batches @ [?B])"
      by (subst batches_loop.simps) (use True ne f in \<open>simp add: Let_def del: batches_loop.simps\<close>)
    with "1.IH"[OF True refl ne f inv' deg' ok known acyc] show ?thesis
      by (simp del: batches_loop.simps)
  qed
qed

text \<open>\<open>topo_sorted nodes xs\<close>: every element of \<open>xs\<close> has all its dependencies at strictly
  earlier positions.\<close>

definition topo_sorted :: "Graph \<Rightarrow> string list \<Rightarrow> bool" where
  "topo_sorted nodes xs = (\<forall>p<length xs. set (deps_of nodes (xs ! p)) \<subseteq> set (take p xs))"

lemma concat_nth_batch:
  "p < length (concat bs) \<Longrightarrow>
   \<exists>i<length bs. concat bs ! p \<in> set (bs ! i) \<and> length (concat (take i bs)) \<le> p"
proof (induction bs arbitrary: p)
  case Nil
  then show ?case by simp
next
  case (Cons b bs)
  show ?case
  proof (cases "p < length b")
    case True
    then have "concat (b # bs) ! p \<in> set ((b # bs) ! 0)" by (simp add: nth_append)
    then show ?thesis by (intro exI[of _ 0]) simp
  next
    case False
    with Cons.prems have "p - length b < length (concat bs)" by simp
    from Cons.IH[OF this] obtain i where i: "i < length bs"
      "concat bs ! (p - length b) \<in> set (bs ! i)" "length (concat (take i bs)) \<le> p - length b"
      by blast
    with False show ?thesis by (intro exI[of _ "Suc i"]) (simp add: nth_append)
  qed
qed

lemma layered_topo_sorted:
  assumes "\<forall>i<length bs. \<forall>a \<in> set (bs ! i). set (deps_of nodes a) \<subseteq> set (concat (take i bs))"
  shows "topo_sorted nodes (concat bs)"
  unfolding topo_sorted_def
proof (intro allI impI)
  fix p assume "p < length (concat bs)"
  from concat_nth_batch[OF this] obtain i where i: "i < length bs"
    "concat bs ! p \<in> set (bs ! i)" "length (concat (take i bs)) \<le> p" by blast
  have "concat bs = concat (take i bs) @ concat (drop i bs)"
    by (metis append_take_drop_id concat_append)
  then have "take (length (concat (take i bs))) (concat bs) = concat (take i bs)"
    by (metis append_eq_conv_conj)
  then have "set (concat (take i bs)) \<subseteq> set (take p (concat bs))"
    using set_take_subset_set_take[OF i(3), of "concat bs"] by simp
  with assms i(1,2) show "set (deps_of nodes (concat bs ! p)) \<subseteq> set (take p (concat bs))"
    by blast
qed

lemma layered_trancl:
  assumes lay: "\<forall>i<length bs. \<forall>a \<in> set (bs ! i). set (deps_of nodes a) \<subseteq> set (concat (take i bs))"
    and "(a, d) \<in> (dep_rel nodes)\<^sup>+" and "i < length bs" and "a \<in> set (bs ! i)"
  shows "\<exists>j<i. d \<in> set (bs ! j)"
  using assms(2,3,4)
proof (induction arbitrary: i rule: trancl_induct)
  case (base d)
  then have "d \<in> set (deps_of nodes a)" by (simp add: dep_rel_def)
  with lay base have "d \<in> set (concat (take i bs))" by blast
  then obtain b where "b \<in> set (take i bs)" "d \<in> set b" by auto
  then obtain j where "j < length (take i bs)" "take i bs ! j = b" by (auto simp: in_set_conv_nth)
  with \<open>d \<in> set b\<close> show ?case by (intro exI[of _ j]) auto
next
  case (step d e)
  from step.IH[OF step.prems] obtain j where j: "j < i" "d \<in> set (bs ! j)" by blast
  from step.hyps(2) have "e \<in> set (deps_of nodes d)" by (simp add: dep_rel_def)
  with lay j step.prems(1) have "e \<in> set (concat (take j bs))"
    by (meson less_trans subsetD)
  then obtain b where "b \<in> set (take j bs)" "e \<in> set b" by auto
  then obtain j' where "j' < length (take j bs)" "take j bs ! j' = b" by (auto simp: in_set_conv_nth)
  with \<open>e \<in> set b\<close> j(1) show ?case by (intro exI[of _ j']) auto
qed

text \<open>
  On a graph that is acyclic and whose dependencies are all node keys, the loop returns
  batches that partition the node keys into layers: every direct or transitive
  dependency of a key lies in a strictly earlier batch.
\<close>

lemma batches_layers:
  assumes "deps_known (buildGraph cfg)" and "acyclic (dep_rel (buildGraph cfg))"
  shows "\<exists>bs. getParallelBatches (buildGraph cfg) = Inr bs
     \<and> (\<forall>a \<in> fst ` set (buildGraph cfg). \<exists>!i. i < length bs \<and> a \<in> set (bs ! i))
     \<and> (\<forall>i<length bs. \<forall>a \<in> set (bs ! i). \<forall>d. (a, d) \<in> (dep_rel (buildGraph cfg))\<^sup>+ \<longrightarrow>
            (\<exists>j<i. d \<in> set (bs ! j)))
     \<and> distinct (concat bs) \<and> set (concat bs) = fst ` set (buildGraph cfg)
     \<and> topo_sorted (buildGraph cfg) (concat bs)"
proof -
  let ?G = "buildGraph cfg"
  have ok: "graph_ok ?G" by (rule graph_ok_buildGraph)
  have inv0: "batches_inv ?G (init_inDegree ?G) []"
    by (simp add: batches_inv_def keys_init_inDegree)
  from batches_loop_complete[OF inv0 batches_deg_init[OF ok] ok assms] obtain bs where
    bs: "getParallelBatches ?G = Inr bs" and inv: "batches_inv ?G [] bs" and deg: "batches_deg ?G [] bs"
    unfolding getParallelBatches_def by blast
  note i = inv[unfolded batches_inv_def]
  note dist = i[THEN conjunct2, THEN conjunct2, THEN conjunct1]
  note d = deg[unfolded batches_deg_def]
  have cover: "set (concat bs) = fst ` set ?G" using d[THEN conjunct1] by simp
  note lay = d[THEN conjunct2, THEN conjunct2]
  have one: "\<exists>!i. i < length bs \<and> a \<in> set (bs ! i)" if "a \<in> fst ` set ?G" for a
  proof -
    from that cover have "a \<in> set (concat bs)" by simp
    then obtain b where "b \<in> set bs" "a \<in> set b" by auto
    then obtain i where i: "i < length bs" "a \<in> set (bs ! i)" by (auto simp: in_set_conv_nth)
    have "j = i" if j: "j < length bs" "a \<in> set (bs ! j)" for j
    proof (rule ccontr)
      assume "j \<noteq> i"
      then consider "i < j" | "j < i" by linarith
      then show False
      proof cases
        case 1
        from distinct_concat_nth_disjoint[OF dist 1 j(1)] i(2) j(2) show False by blast
      next
        case 2
        from distinct_concat_nth_disjoint[OF dist 2 i(1)] i(2) j(2) show False by blast
      qed
    qed
    with i show ?thesis by blast
  qed
  have tr: "\<exists>j<i. d \<in> set (bs ! j)"
    if "i < length bs" "a \<in> set (bs ! i)" "(a, d) \<in> (dep_rel ?G)\<^sup>+" for i a d
    using layered_trancl[OF lay that(3,1,2)] .
  have ts: "topo_sorted ?G (concat bs)" by (rule layered_topo_sorted[OF lay])
  show ?thesis
  proof (intro exI[of _ bs] conjI ballI allI impI)
    show "getParallelBatches ?G = Inr bs" by (rule bs)
    show "distinct (concat bs)" by (rule dist)
    show "set (concat bs) = fst ` set ?G" by (rule cover)
    show "topo_sorted ?G (concat bs)" by (rule ts)
  next
    fix a assume "a \<in> fst ` set ?G"
    then show "\<exists>!i. i < length bs \<and> a \<in> set (bs ! i)" by (rule one)
  next
    fix i a d assume "i < length bs" "a \<in> set (bs ! i)" "(a, d) \<in> (dep_rel ?G)\<^sup>+"
    then show "\<exists>j<i. d \<in> set (bs ! j)" by (rule tr)
  qed
qed


lemma acyclic_by_rank:
  fixes f :: "'a \<Rightarrow> nat"
  assumes "\<And>a d. (a, d) \<in> r \<Longrightarrow> f d < f a"
  shows "acyclic r"
proof -
  have "r\<inverse> \<subseteq> measure f" using assms by auto
  then have "acyclic (r\<inverse>)" by (rule acyclic_subset[OF wf_acyclic[OF wf_measure]])
  then show ?thesis by simp
qed

definition ex_rank :: "string \<Rightarrow> nat" where
  "ex_rank a = (if a = ''@utils'' then 0 else if a = ''@orders'' then 1 else 2)"

lemma ex_shop_deps_known: "deps_known (buildGraph ex_shop_cfg)"
  unfolding ex_shop_graph by (simp add: deps_known_def)

lemma ex_shop_acyclic: "acyclic (dep_rel (buildGraph ex_shop_cfg))"
proof (rule acyclic_by_rank[where f = ex_rank])
  fix a d assume "(a, d) \<in> dep_rel (buildGraph ex_shop_cfg)"
  then have "d \<in> set (deps_of (buildGraph ex_shop_cfg) a)" by (simp add: dep_rel_def)
  then show "ex_rank d < ex_rank a"
    unfolding ex_shop_graph by (auto simp: deps_of_def ex_rank_def split: if_splits)
qed

definition ex_blank_lib :: Workspace where
  "ex_blank_lib = \<lparr>Workspace.path = ''/repo/lib'', alias = Some [], dependsOn = None,
                   command = None\<rparr>"

definition ex_blank_app :: Workspace where
  "ex_blank_app = \<lparr>Workspace.path = ''/repo/a'', alias = Some ''@a'', dependsOn = Some [[]],
                   command = None\<rparr>"

definition ex_blank_cfg :: spinxConfig where
  "ex_blank_cfg =
     \<lparr>concurrency = None, spinxConfig.workspace = [ex_blank_lib, ex_blank_app], defaults = None\<rparr>"

lemma ex_blank_graph:
  "buildGraph ex_blank_cfg =
     [(''/repo/lib'', \<lparr>GraphNode.workspace = ex_blank_lib, dependencies = [], dependents = []\<rparr>),
      (''@a'', \<lparr>GraphNode.workspace = ex_blank_app, dependencies = [[]], dependents = []\<rparr>)]"
  by (simp add: ex_blank_cfg_def buildGraph_def init_nodes_def build_dependents_def new_node_def
      add_dependent_def identity_def js_or_def truthy_def new_Set_def set_add_def
      ex_blank_lib_def ex_blank_app_def)

lemma ex_blank_valid: "validateWorkspaces (\<lambda>p. True) ex_blank_cfg = Inr ()"
  by (simp add: validateWorkspaces_def ex_blank_cfg_def ex_blank_lib_def ex_blank_app_def
      known_alias_def truthy_def set_add_def identity_def js_or_def)

lemma ex_blank_constructed: "DependencyGraph ex_blank_cfg = Inr (buildGraph ex_blank_cfg)"
  unfolding DependencyGraph_def ex_blank_graph
  by (simp add: detectCycles_def dfs.simps dfs_deps.simps enter_def leave_def set_add_def Let_def)

lemma ex_blank_acyclic: "acyclic (dep_rel (buildGraph ex_blank_cfg))"
proof (rule acyclic_by_rank[where f = "\<lambda>a. if a = ''@a'' then 1 else (0::nat)"])
  fix a d assume "(a, d) \<in> dep_rel (buildGraph ex_blank_cfg)"
  then have "d \<in> set (deps_of (buildGraph ex_blank_cfg) a)" by (simp add: dep_rel_def)
  then show "(if d = ''@a'' then 1 else (0::nat)) < (if a = ''@a'' then 1 else 0)"
    unfolding ex_blank_graph by (auto simp: deps_of_def split: if_splits)
qed

definition ex_shadowed :: Workspace where
  "ex_shadowed = \<lparr>Workspace.path = ''/repo/x'', alias = None, dependsOn = Some [''@c''],
                  command = None\<rparr>"

definition ex_shadowing :: Workspace where
  "ex_shadowing = \<lparr>Workspace.path = ''/repo/y'', alias = Some ''/repo/x'', dependsOn = None,
                   command = None\<rparr>"

definition ex_core :: Workspace where
  "ex_core = \<lparr>Workspace.path = ''/repo/c'', alias = Some ''@c'', dependsOn = None,
              command = None\<rparr>"

definition ex_shadow_cfg :: spinxConfig where
  "ex_shadow_cfg =
     \<lparr>concurrency = None, spinxConfig.workspace = [ex_shadowed, ex_shadowing, ex_core],
      defaults = None\<rparr>"

lemma ex_shadow_graph:
  "buildGraph ex_shadow_cfg =
     [(''/repo/x'', \<lparr>GraphNode.workspace = ex_shadowing, dependencies = [], dependents = []\<rparr>),
      (''@c'', \<lparr>GraphNode.workspace = ex_core, dependencies = [], dependents = []\<rparr>)]"
  by (simp add: ex_shadow_cfg_def buildGraph_def init_nodes_def build_dependents_def new_node_def
      add_dependent_def identity_def js_or_def truthy_def new_Set_def set_add_def
      ex_shadowed_def ex_shadowing_def ex_core_def)

lemma ex_shadow_valid: "validateWorkspaces (\<lambda>p. True) ex_shadow_cfg = Inr ()"
  by (simp add: validateWorkspaces_def ex_shadow_cfg_def ex_shadowed_def ex_shadowing_def
      ex_core_def known_alias_def truthy_def set_add_def identity_def js_or_def)

lemma ex_shadow_constructed: "DependencyGraph ex_shadow_cfg = Inr (buildGraph ex_shadow_cfg)"
  unfolding DependencyGraph_def ex_shadow_graph
  by (simp add: detectCycles_def dfs.simps dfs_deps.simps enter_def leave_def set_add_def Let_def)

lemma ex_shadow_acyclic: "acyclic (dep_rel (buildGraph ex_shadow_cfg))"
proof (rule acyclic_by_rank[where f = "\<lambda>a. 0::nat"])
  fix a d assume "(a, d) \<in> dep_rel (buildGraph ex_shadow_cfg)"
  then have "d \<in> set (deps_of (buildGraph ex_shadow_cfg) a)" by (simp add: dep_rel_def)
  then show "(0::nat) < 0"
    unfolding ex_shadow_graph by (auto simp: deps_of_def split: if_splits)
qed

text \<open>
  Claim C1, as stated, fails in two ways. A workspace with the empty alias is keyed by its
  path, yet \<^verbatim>\<open>validateWorkspaces\<close> accepts the empty string as a dependency name: the
  configuration passes validation, the constructor returns, the dependency relation is
  acyclic, and \<open>getParallelBatches\<close> throws, because the in-degree of \<^verbatim>\<open>@a\<close> counts a
  dependency that is no node. And a workspace whose identity is taken again by a later
  declaration is replaced in the node map: the workspace at \<^verbatim>\<open>/repo/x\<close> declares the
  dependency \<^verbatim>\<open>@c\<close>, and its identity shares the only batch with \<^verbatim>\<open>@c\<close>.
\<close>

theorem getParallelBatches_throws_on_validated_acyclic:
  "validateWorkspaces (\<lambda>p. True) ex_blank_cfg = Inr ()
   \<and> DependencyGraph ex_blank_cfg = Inr (buildGraph ex_blank_cfg)
   \<and> acyclic (dep_rel (buildGraph ex_blank_cfg))
   \<and> getParallelBatches (buildGraph ex_blank_cfg) = Inl UnableToDetermineBatches
   \<and> validateWorkspaces (\<lambda>p. True) ex_shadow_cfg = Inr ()
   \<and> DependencyGraph ex_shadow_cfg = Inr (buildGraph ex_shadow_cfg)
   \<and> acyclic (dep_rel (buildGraph ex_shadow_cfg))
   \<and> spinxConfig.workspace ex_shadow_cfg = [ex_shadowed, ex_shadowing, ex_core]
   \<and> identity ex_shadowed = ''/repo/x'' \<and> dependsOn ex_shadowed = Some [''@c'']
   \<and> getParallelBatches (buildGraph ex_shadow_cfg) = Inr [[''/repo/x'', ''@c'']]"
proof -
  have b: "getParallelBatches (buildGraph ex_blank_cfg) = Inl UnableToDetermineBatches"
    unfolding ex_blank_graph
    by (simp add: getParallelBatches_def init_inDegree_def zero_batch_def remove_processed_def
        dec_present_def)
  have s: "getParallelBatches (buildGraph ex_shadow_cfg) = Inr [[''/repo/x'', ''@c'']]"
    unfolding ex_shadow_graph
    by (simp add: getParallelBatches_def init_inDegree_def zero_batch_def remove_processed_def
        dec_present_def)
  have i: "identity ex_shadowed = ''/repo/x''" "dependsOn ex_shadowed = Some [''@c'']"
    "spinxConfig.workspace ex_shadow_cfg = [ex_shadowed, ex_shadowing, ex_core]"
    by (simp_all add: ex_shadowed_def identity_def js_or_def truthy_def ex_shadow_cfg_def)
  from ex_blank_valid ex_blank_constructed ex_blank_acyclic b ex_shadow_valid
    ex_shadow_constructed ex_shadow_acyclic i s
  show ?thesis by (intro conjI)
qed

text \<open>
  Claim C1, amended. For every configuration whose graph is acyclic and in which every
  dependency of a node is itself a node key, \<open>getParallelBatches\<close> returns batches such
  that the identity (\<^verbatim>\<open>alias || path\<close>) of every workspace is in exactly one batch, the
  batches hold nothing but these identities, every direct or transitive dependency of a
  node is in a strictly earlier batch (so none shares its batch), and the concatenation
  of the batches lists every identity once with all the dependencies of its node before
  it. The node of an identity is that of the last declaration with it.
\<close>

theorem getParallelBatches_layers:
  assumes "deps_known (buildGraph cfg)" and "acyclic (dep_rel (buildGraph cfg))"
  shows "\<exists>bs. getParallelBatches (buildGraph cfg) = Inr bs
     \<and> (\<forall>ws \<in> set (spinxConfig.workspace cfg). \<exists>!i. i < length bs \<and> identity ws \<in> set (bs ! i))
     \<and> set (concat bs) = identity ` set (spinxConfig.workspace cfg)
     \<and> (\<forall>i<length bs. \<forall>a \<in> set (bs ! i). \<forall>d. (a, d) \<in> (dep_rel (buildGraph cfg))\<^sup>+ \<longrightarrow>
            (\<exists>j<i. d \<in> set (bs ! j)))
     \<and> distinct (concat bs)
     \<and> topo_sorted (buildGraph cfg) (concat bs)"
proof -
  from batches_layers[OF assms] obtain bs where
    r: "getParallelBatches (buildGraph cfg) = Inr bs"
    and one: "\<forall>a \<in> fst ` set (buildGraph cfg). \<exists>!i. i < length bs \<and> a \<in> set (bs ! i)"
    and tr: "\<forall>i<length bs. \<forall>a \<in> set (bs ! i). \<forall>d. (a, d) \<in> (dep_rel (buildGraph cfg))\<^sup>+ \<longrightarrow>
            (\<exists>j<i. d \<in> set (bs ! j))"
    and d: "distinct (concat bs)" and c: "set (concat bs) = fst ` set (buildGraph cfg)"
    and t: "topo_sorted (buildGraph cfg) (concat bs)"
    by (elim exE conjE) (rule that; assumption)
  have "\<forall>ws \<in> set (spinxConfig.workspace cfg). \<exists>!i. i < length bs \<and> identity ws \<in> set (bs ! i)"
  proof
    fix ws assume "ws \<in> set (spinxConfig.workspace cfg)"
    then have "identity ws \<in> fst ` set (buildGraph cfg)" unfolding keys_buildGraph by simp
    with one show "\<exists>!i. i < length bs \<and> identity ws \<in> set (bs ! i)" by (rule bspec)
  qed
  moreover have "set (concat bs) = identity ` set (spinxConfig.workspace cfg)"
    using c unfolding keys_buildGraph .
  ultimately show ?thesis using r tr d t by (intro exI[of _ bs] conjI)
qed

theorem getParallelBatches_layers_witness:
  "getParallelBatches (buildGraph ex_shop_cfg) = Inr [[''@utils''], [''@orders''], [''@cart'']]
   \<and> topo_sorted (buildGraph ex_shop_cfg) [''@utils'', ''@orders'', ''@cart'']"
proof -
  from getParallelBatches_layers[OF ex_shop_deps_known ex_shop_acyclic] obtain bs where
    b: "getParallelBatches (buildGraph ex_shop_cfg) = Inr bs"
    and t: "topo_sorted (buildGraph ex_shop_cfg) (concat bs)"
    by (elim exE conjE) (rule that; assumption)
  from b have "bs = [[''@utils''], [''@orders''], [''@cart'']]" by (simp add: ex_shop_batches)
  with t have "topo_sorted (buildGraph ex_shop_cfg) [''@utils'', ''@orders'', ''@cart'']" by simp
  with ex_shop_batches show ?thesis by simp
qed

section \<open>Topological order\<close>

lemma topo_init_fold:
  "fold init_degree nodes (m0, q0)
   = (fold (\<lambda>(a, node) m. AList.update a (Num (int (length (dependencies node)))) m) nodes m0,
      q0 @ map fst (filter (\<lambda>(a, node). dependencies node = []) nodes))"
proof (induction nodes arbitrary: m0 q0)
  case Nil
  show ?case by simp
next
  case (Cons p nodes)
  obtain a node where p: "p = (a, node)" by (cases p)
  show ?case unfolding p by (simp add: Cons.IH)
qed

lemma deps_of_pair:
  "distinct (map fst nodes) \<Longrightarrow> (a, node) \<in> set nodes \<Longrightarrow> deps_of nodes a = dependencies node"
  by (simp add: deps_of_def)

lemma topo_init_facts:
  assumes ok: "graph_ok nodes" and ti: "topo_init nodes = (inDegree, queue)"
  shows "\<And>k. k \<in> fst ` set nodes \<Longrightarrow>
            map_of inDegree k = Some (Num (int (card (set (deps_of nodes k)))))"
    and "distinct queue"
    and "set queue = {k \<in> fst ` set nodes. set (deps_of nodes k) = {}}"
proof -
  note g = ok[unfolded graph_ok_def]
  note d = g[THEN conjunct1]
  from ti have m: "inDegree =
      fold (\<lambda>(a, node) m. AList.update a (Num (int (length (dependencies node)))) m) nodes []"
    and q: "queue = map fst (filter (\<lambda>(a, node). dependencies node = []) nodes)"
    unfolding topo_init_def topo_init_fold by simp_all
  show "map_of inDegree k = Some (Num (int (card (set (deps_of nodes k)))))"
    if "k \<in> fst ` set nodes" for k
  proof -
    from that obtain node where n: "map_of nodes k = Some node"
      by (metis map_of_eq_None_iff not_Some_eq)
    have dd: "distinct (deps_of nodes k)" using g[THEN conjunct2, THEN conjunct1] by simp
    have "map_of inDegree k = Some (Num (int (length (dependencies node))))"
      unfolding m
      using init_inDegree_map_of_aux[OF d, of "[]" "\<lambda>node. Num (int (length (dependencies node)))" k] n
      by simp
    also have "length (dependencies node) = card (set (deps_of nodes k))"
      using dd n by (simp add: deps_of_def distinct_card)
    finally show ?thesis .
  qed
  show "distinct queue" unfolding q using d by (simp add: distinct_map_filter)
  show "set queue = {k \<in> fst ` set nodes. set (deps_of nodes k) = {}}"
  proof (intro set_eqI iffI)
    fix k assume "k \<in> set queue"
    then obtain node where "(k, node) \<in> set nodes" "dependencies node = []"
      unfolding q by auto
    with deps_of_pair[OF d this(1)] show "k \<in> {k \<in> fst ` set nodes. set (deps_of nodes k) = {}}"
      by force
  next
    fix k assume "k \<in> {k \<in> fst ` set nodes. set (deps_of nodes k) = {}}"
    then obtain node where n: "(k, node) \<in> set nodes" and e: "deps_of nodes k = []" by auto
    with deps_of_pair[OF d n] have "dependencies node = []" by simp
    with n show "k \<in> set queue" unfolding q by force
  qed
qed

lemma fold_dec_dependent_result:
  "distinct ds \<Longrightarrow>
   fold dec_dependent ds (m, q) =
     (fold (\<lambda>d m. AList.update d (minus_one (map_of m d)) m) ds m,
      q @ filter (\<lambda>d. minus_one (map_of m d) = Num 0) ds)"
proof (induction ds arbitrary: m q)
  case Nil
  show ?case by simp
next
  case (Cons d ds)
  let ?m1 = "AList.update d (minus_one (map_of m d)) m"
  from Cons.prems have dd: "distinct ds" and nd: "d \<notin> set ds" by auto
  have same: "filter (\<lambda>x. minus_one (map_of ?m1 x) = Num 0) ds
            = filter (\<lambda>x. minus_one (map_of m x) = Num 0) ds"
    using nd by (intro filter_cong) (auto simp: update_conv')
  show ?case using Cons.IH[OF dd, of ?m1] same by (simp add: Let_def)
qed

lemma fold_update_minus_one_map_of:
  "distinct ds \<Longrightarrow>
   map_of (fold (\<lambda>d m. AList.update d (minus_one (map_of m d)) m) ds m) k =
     (if k \<in> set ds then Some (minus_one (map_of m k)) else map_of m k)"
proof (induction ds arbitrary: m)
  case Nil
  show ?case by simp
next
  case (Cons d ds)
  from Cons.prems have dd: "distinct ds" and nd: "d \<notin> set ds" by auto
  show ?case using nd by (simp add: Cons.IH[OF dd] update_conv')
qed

text \<open>The state of Kahn's loop: \<open>result\<close> and \<open>queue\<close> hold, without repetition, exactly
  the nodes whose dependencies are all in \<open>result\<close>, each in-degree counts the dependencies
  not yet in \<open>result\<close>, and \<open>result\<close> is topologically sorted.\<close>

definition topo_state ::
  "Graph \<Rightarrow> (string \<times> jsnum) list \<Rightarrow> string list \<Rightarrow> string list \<Rightarrow> bool" where
  "topo_state nodes inDegree queue result \<longleftrightarrow>
     distinct (result @ queue) \<and>
     (\<forall>k \<in> fst ` set nodes.
        map_of inDegree k = Some (Num (int (card (set (deps_of nodes k) - set result))))) \<and>
     (\<forall>k. k \<in> set (result @ queue) \<longleftrightarrow>
          k \<in> fst ` set nodes \<and> set (deps_of nodes k) \<subseteq> set result) \<and>
     topo_sorted nodes result"

lemma topo_sorted_snoc:
  assumes "topo_sorted nodes xs" and "set (deps_of nodes a) \<subseteq> set xs"
  shows "topo_sorted nodes (xs @ [a])"
  unfolding topo_sorted_def
proof (intro allI impI)
  fix p assume p: "p < length (xs @ [a])"
  show "set (deps_of nodes ((xs @ [a]) ! p)) \<subseteq> set (take p (xs @ [a]))"
  proof (cases "p < length xs")
    case True
    with assms(1) show ?thesis by (simp add: topo_sorted_def nth_append)
  next
    case False
    with p have "p = length xs" by simp
    with assms(2) show ?thesis by simp
  qed
qed

lemma topo_state_init:
  assumes ok: "graph_ok nodes" and ti: "topo_init nodes = (inDegree, queue)"
  shows "topo_state nodes inDegree queue []"
  unfolding topo_state_def
proof (intro conjI ballI allI)
  note f = topo_init_facts[OF ok ti]
  show "distinct ([] @ queue)" using f(2) by simp
  show "topo_sorted nodes []" by (simp add: topo_sorted_def)
  fix k
  show "k \<in> set ([] @ queue) \<longleftrightarrow> k \<in> fst ` set nodes \<and> set (deps_of nodes k) \<subseteq> set []"
    using f(3) by simp
  assume "k \<in> fst ` set nodes"
  from f(1)[OF this]
  show "map_of inDegree k = Some (Num (int (card (set (deps_of nodes k) - set []))))" by simp
qed

lemma topo_state_step:
  assumes ok: "graph_ok nodes"
    and st: "topo_state nodes inDegree (a # queue) result"
    and f: "fold dec_dependent (dependents_of nodes a) (inDegree, queue) = (inDegree', queue')"
  shows "topo_state nodes inDegree' queue' (result @ [a])"
proof -
  let ?K = "fst ` set nodes" and ?R = "set result" and ?ds = "dependents_of nodes a"
  note g = ok[unfolded graph_ok_def]
  note dd = g[THEN conjunct2, THEN conjunct1, rule_format, THEN conjunct2]
    and rev = g[THEN conjunct2, THEN conjunct2, rule_format]
  note s = st[unfolded topo_state_def]
  note dist = s[THEN conjunct1] and degs = s[THEN conjunct2, THEN conjunct1, rule_format]
    and mem = s[THEN conjunct2, THEN conjunct2, THEN conjunct1, rule_format]
    and ts = s[THEN conjunct2, THEN conjunct2, THEN conjunct2]
  from dist have aR: "a \<notin> ?R" and aq: "a \<notin> set queue" and dq: "distinct (result @ queue)"
    by auto
  have "a \<in> set (result @ a # queue)" by simp
  then have aK: "a \<in> ?K" and adeps: "set (deps_of nodes a) \<subseteq> ?R" unfolding mem by blast+
  have dsK: "d \<in> ?K \<and> a \<in> set (deps_of nodes d)" if "d \<in> set ?ds" for d
    using that unfolding rev by blast
  have new_deg: "minus_one (map_of inDegree d) = Num (int (card (set (deps_of nodes d) - set (result @ [a]))))"
    if "d \<in> set ?ds" for d
  proof -
    from dsK[OF that] have dK: "d \<in> ?K" and ad: "a \<in> set (deps_of nodes d)" by blast+
    let ?A = "set (deps_of nodes d) - ?R"
    from ad aR have aA: "a \<in> ?A" by blast
    have finA: "finite ?A" by simp
    from aA finA have "card ?A \<noteq> 0" by (metis card_0_eq empty_iff)
    then have "card ?A \<ge> 1" by arith
    moreover from aA have "card (?A - {a}) = card ?A - 1" by (simp add: card_Diff_singleton)
    ultimately have "card (?A - {a}) = card ?A - 1" "card ?A \<ge> 1" by simp_all
    moreover have "?A - {a} = set (deps_of nodes d) - set (result @ [a])" by auto
    ultimately have "int (card (set (deps_of nodes d) - set (result @ [a]))) = int (card ?A) - 1"
      by simp
    then show ?thesis unfolding degs[OF dK] by (simp add: minus_one_def)
  qed
  from f have m': "inDegree' = fold (\<lambda>d m. AList.update d (minus_one (map_of m d)) m) ?ds inDegree"
    and q': "queue' = queue @ filter (\<lambda>d. minus_one (map_of inDegree d) = Num 0) ?ds"
    unfolding fold_dec_dependent_result[OF dd] by simp_all
  have newq: "set (filter (\<lambda>d. minus_one (map_of inDegree d) = Num 0) ?ds)
      = {d \<in> set ?ds. set (deps_of nodes d) \<subseteq> set (result @ [a])}"
  proof -
    have "minus_one (map_of inDegree d) = Num 0 \<longleftrightarrow> set (deps_of nodes d) \<subseteq> set (result @ [a])"
      if "d \<in> set ?ds" for d
      unfolding new_deg[OF that] by simp
    then show ?thesis by auto
  qed
  have not_dep: "set (deps_of nodes k) - set (result @ [a]) = set (deps_of nodes k) - ?R"
    if "k \<in> ?K" "k \<notin> set ?ds" for k
  proof -
    from that aK have "a \<notin> set (deps_of nodes k)" unfolding rev by blast
    then show ?thesis by auto
  qed
  have 2: "map_of inDegree' k = Some (Num (int (card (set (deps_of nodes k) - set (result @ [a])))))"
    if "k \<in> ?K" for k
  proof (cases "k \<in> set ?ds")
    case True
    then show ?thesis unfolding m' fold_update_minus_one_map_of[OF dd] by (simp add: new_deg)
  next
    case False
    then show ?thesis unfolding m' fold_update_minus_one_map_of[OF dd] not_dep[OF that False]
      by (simp add: degs[OF that])
  qed
  have 3: "k \<in> set ((result @ [a]) @ queue') \<longleftrightarrow>
        k \<in> ?K \<and> set (deps_of nodes k) \<subseteq> set (result @ [a])" for k
  proof
    assume "k \<in> set ((result @ [a]) @ queue')"
    then consider "k \<in> set (result @ a # queue)"
      | "k \<in> set ?ds" "set (deps_of nodes k) \<subseteq> set (result @ [a])"
      unfolding q' using newq by auto
    then show "k \<in> ?K \<and> set (deps_of nodes k) \<subseteq> set (result @ [a])"
    proof cases
      case 1
      then have "k \<in> ?K \<and> set (deps_of nodes k) \<subseteq> ?R" unfolding mem .
      then show ?thesis by auto
    next
      case 2
      with dsK[OF 2(1)] show ?thesis by blast
    qed
  next
    assume h: "k \<in> ?K \<and> set (deps_of nodes k) \<subseteq> set (result @ [a])"
    show "k \<in> set ((result @ [a]) @ queue')"
    proof (cases "set (deps_of nodes k) \<subseteq> ?R")
      case True
      with h have "k \<in> set (result @ a # queue)" unfolding mem by blast
      then show ?thesis unfolding q' by auto
    next
      case False
      with h have "a \<in> set (deps_of nodes k)" by auto
      with h aK have "k \<in> set ?ds" unfolding rev by blast
      with h newq have "k \<in> set (filter (\<lambda>d. minus_one (map_of inDegree d) = Num 0) ?ds)"
        by blast
      then show ?thesis unfolding q' by simp
    qed
  qed
  have fresh: "d \<notin> set (result @ a # queue)"
    if "d \<in> set (filter (\<lambda>d. minus_one (map_of inDegree d) = Num 0) ?ds)" for d
  proof
    assume "d \<in> set (result @ a # queue)"
    then have "set (deps_of nodes d) \<subseteq> ?R" unfolding mem by blast
    moreover from that have "d \<in> set ?ds" by simp
    from dsK[OF this] have "a \<in> set (deps_of nodes d)" by blast
    ultimately show False using aR by blast
  qed
  have 1: "distinct ((result @ [a]) @ queue')"
  proof -
    have "distinct (filter (\<lambda>d. minus_one (map_of inDegree d) = Num 0) ?ds)"
      using dd by simp
    moreover have "distinct (result @ a # queue)" using dist by simp
    ultimately show ?thesis unfolding q' using fresh by auto
  qed
  have 4: "topo_sorted nodes (result @ [a])" by (rule topo_sorted_snoc[OF ts adeps])
  show ?thesis unfolding topo_state_def
  proof (intro conjI ballI allI)
    show "distinct ((result @ [a]) @ queue')" by (rule 1)
    show "topo_sorted nodes (result @ [a])" by (rule 4)
    fix k show "k \<in> set ((result @ [a]) @ queue') \<longleftrightarrow>
        k \<in> ?K \<and> set (deps_of nodes k) \<subseteq> set (result @ [a])" by (rule 3)
    assume "k \<in> ?K"
    then show "map_of inDegree' k = Some (Num (int (card (set (deps_of nodes k) - set (result @ [a])))))"
      by (rule 2)
  qed
qed

lemma topo_loop_complete:
  "topo_state nodes inDegree queue result \<Longrightarrow> graph_ok nodes \<Longrightarrow>
   \<exists>order inDegree'. topo_loop nodes inDegree queue result = Inr order
      \<and> topo_state nodes inDegree' [] order"
proof (induction nodes inDegree queue result rule: topo_loop.induct)
  case (1 nodes inDegree result)
  have "topo_loop nodes inDegree [] result = Inr result" by simp
  with "1.prems"(1) show ?case by (intro exI conjI)
next
  case (2 nodes inDegree a queue result)
  note s = "2.prems"(1)[unfolded topo_state_def]
  note mem = s[THEN conjunct2, THEN conjunct2, THEN conjunct1, rule_format]
  have "a \<in> set (result @ a # queue)" by simp
  then have "a \<in> fst ` set nodes" unfolding mem by (rule conjunct1)
  then obtain node where n: "map_of nodes a = Some node"
    by (metis map_of_eq_None_iff not_Some_eq)
  then have dn: "dependents_of nodes a = dependents node" by (simp add: dependents_of_def)
  obtain inDegree' queue' where
    f: "fold dec_dependent (dependents node) (inDegree, queue) = (inDegree', queue')"
    by (cases "fold dec_dependent (dependents node) (inDegree, queue)")
  have st': "topo_state nodes inDegree' queue' (result @ [a])"
    by (rule topo_state_step[OF "2.prems"(2,1) f[folded dn]])
  have "topo_loop nodes inDegree (a # queue) result = topo_loop nodes inDegree' queue' (result @ [a])"
    by (subst topo_loop.simps) (simp add: n f del: topo_loop.simps)
  with "2.IH"[OF n f[symmetric] st' "2.prems"(2)] show ?case
    by (simp del: topo_loop.simps)
qed

lemma topo_state_final:
  assumes st: "topo_state nodes inDegree [] order"
    and known: "deps_known nodes" and acyc: "acyclic (dep_rel nodes)"
  shows "set order = fst ` set nodes" and "distinct order" and "topo_sorted nodes order"
proof -
  note s = st[unfolded topo_state_def]
  note mem = s[THEN conjunct2, THEN conjunct2, THEN conjunct1, rule_format]
  from s[THEN conjunct1] show "distinct order" by simp
  from s[THEN conjunct2, THEN conjunct2, THEN conjunct2] show "topo_sorted nodes order" .
  have sub: "set order \<subseteq> fst ` set nodes"
  proof
    fix k assume "k \<in> set order"
    then have "k \<in> set (order @ [])" by simp
    then show "k \<in> fst ` set nodes" unfolding mem by (rule conjunct1)
  qed
  have "fst ` set nodes - set order = {}"
  proof (rule ccontr)
    assume "fst ` set nodes - set order \<noteq> {}"
    from acyclic_has_ready[OF known acyc sub this] obtain k where
      k: "k \<in> fst ` set nodes - set order" and r: "set (deps_of nodes k) \<subseteq> set order" by blast
    from k r have "k \<in> fst ` set nodes \<and> set (deps_of nodes k) \<subseteq> set order" by simp
    then have "k \<in> set (order @ [])" unfolding mem .
    with k show False by simp
  qed
  with sub show "set order = fst ` set nodes" by blast
qed

text \<open>
  On a graph that is acyclic and whose dependencies are all node keys, the queue loop
  returns a list without repetition that holds exactly the node keys, with every
  dependency of a key at a strictly earlier position.
\<close>

lemma topo_order_nodes:
  assumes "deps_known (buildGraph cfg)" and "acyclic (dep_rel (buildGraph cfg))"
  shows "\<exists>order. getTopologicalOrder (buildGraph cfg) = Inr order
     \<and> distinct order \<and> set order = set (map fst (buildGraph cfg))
     \<and> length order = length (buildGraph cfg)
     \<and> (\<forall>p<length order. \<forall>d \<in> set (deps_of (buildGraph cfg) (order ! p)).
           \<exists>q<p. order ! q = d)"
proof -
  let ?G = "buildGraph cfg"
  have ok: "graph_ok ?G" by (rule graph_ok_buildGraph)
  obtain inDegree queue where ti: "topo_init ?G = (inDegree, queue)" by (cases "topo_init ?G")
  from topo_loop_complete[OF topo_state_init[OF ok ti] ok] obtain order inDegree' where
    r: "topo_loop ?G inDegree queue [] = Inr order" and st: "topo_state ?G inDegree' [] order"
    by (elim exE conjE) (rule that; assumption)
  note fin = topo_state_final[OF st assms]
  have dk: "distinct (map fst ?G)" using ok[unfolded graph_ok_def, THEN conjunct1] .
  have "length order = card (set order)" using fin(2) by (simp add: distinct_card)
  also have "\<dots> = card (set (map fst ?G))" using fin(1) by simp
  also have "\<dots> = length ?G" using dk by (metis distinct_card length_map)
  finally have len: "length order = length ?G" .
  have res: "getTopologicalOrder ?G = Inr order"
    unfolding getTopologicalOrder_def ti using r len by (simp del: topo_loop.simps)
  have pos: "\<exists>q<p. order ! q = d" if "p < length order" "d \<in> set (deps_of ?G (order ! p))" for p d
  proof -
    from fin(3) that have "d \<in> set (take p order)" unfolding topo_sorted_def by blast
    then obtain q where "q < length (take p order)" "take p order ! q = d"
      by (auto simp: in_set_conv_nth)
    then show ?thesis by (intro exI[of _ q]) simp
  qed
  show ?thesis
  proof (intro exI[of _ order] conjI allI impI ballI)
    show "getTopologicalOrder ?G = Inr order" by (rule res)
    show "distinct order" by (rule fin(2))
    show "set order = set (map fst ?G)" using fin(1) by simp
    show "length order = length ?G" by (rule len)
  next
    fix p d assume "p < length order" "d \<in> set (deps_of ?G (order ! p))"
    then show "\<exists>q<p. order ! q = d" by (rule pos)
  qed
qed

text \<open>
  Claim C6, as stated, fails in two ways. On the validated, acyclic configuration whose
  workspace \<^verbatim>\<open>@a\<close> depends on the empty alias, the in-degree of \<^verbatim>\<open>@a\<close> never reaches 0
  and \<open>getTopologicalOrder\<close> throws \<^verbatim>\<open>Graph contains cycles\<close>. And where a later declaration
  takes the identity of the workspace at \<^verbatim>\<open>/repo/x\<close>, the order has two entries for
  three workspaces and puts \<^verbatim>\<open>/repo/x\<close> before \<^verbatim>\<open>@c\<close>, the dependency that workspace
  declares.
\<close>

theorem getTopologicalOrder_throws_on_validated_acyclic:
  "validateWorkspaces (\<lambda>p. True) ex_blank_cfg = Inr ()
   \<and> DependencyGraph ex_blank_cfg = Inr (buildGraph ex_blank_cfg)
   \<and> acyclic (dep_rel (buildGraph ex_blank_cfg))
   \<and> getTopologicalOrder (buildGraph ex_blank_cfg) = Inl GraphContainsCycles
   \<and> validateWorkspaces (\<lambda>p. True) ex_shadow_cfg = Inr ()
   \<and> DependencyGraph ex_shadow_cfg = Inr (buildGraph ex_shadow_cfg)
   \<and> acyclic (dep_rel (buildGraph ex_shadow_cfg))
   \<and> spinxConfig.workspace ex_shadow_cfg = [ex_shadowed, ex_shadowing, ex_core]
   \<and> identity ex_shadowed = ''/repo/x'' \<and> dependsOn ex_shadowed = Some [''@c'']
   \<and> getTopologicalOrder (buildGraph ex_shadow_cfg) = Inr [''/repo/x'', ''@c'']"
proof -
  have b: "getTopologicalOrder (buildGraph ex_blank_cfg) = Inl GraphContainsCycles"
    unfolding ex_blank_graph
    by (simp add: getTopologicalOrder_def topo_init_def minus_one_def Let_def)
  have s: "getTopologicalOrder (buildGraph ex_shadow_cfg) = Inr [''/repo/x'', ''@c'']"
    unfolding ex_shadow_graph
    by (simp add: getTopologicalOrder_def topo_init_def minus_one_def Let_def)
  have i: "identity ex_shadowed = ''/repo/x''" "dependsOn ex_shadowed = Some [''@c'']"
    "spinxConfig.workspace ex_shadow_cfg = [ex_shadowed, ex_shadowing, ex_core]"
    by (simp_all add: ex_shadowed_def identity_def js_or_def truthy_def ex_shadow_cfg_def)
  from ex_blank_valid ex_blank_constructed ex_blank_acyclic b ex_shadow_valid
    ex_shadow_constructed ex_shadow_acyclic i s
  show ?thesis by (intro conjI)
qed

text \<open>
  Claim C6, amended. For every configuration whose graph is acyclic and in which every
  dependency of a node is itself a node key, \<open>getTopologicalOrder\<close> returns a list
  without repetition that holds exactly the identities (\<^verbatim>\<open>alias || path\<close>) of the
  workspaces, and in which every dependency of the node of an identity stands at a
  strictly earlier position. The node of an identity is that of the last declaration
  with it.
\<close>

theorem getTopologicalOrder_sorted_permutation:
  assumes "deps_known (buildGraph cfg)" and "acyclic (dep_rel (buildGraph cfg))"
  shows "\<exists>order. getTopologicalOrder (buildGraph cfg) = Inr order
     \<and> distinct order \<and> set order = identity ` set (spinxConfig.workspace cfg)
     \<and> (\<forall>p<length order. \<forall>d \<in> set (deps_of (buildGraph cfg) (order ! p)).
           \<exists>q<p. order ! q = d)"
proof -
  from topo_order_nodes[OF assms] obtain order where
    r: "getTopologicalOrder (buildGraph cfg) = Inr order" and d: "distinct order"
    and s: "set order = set (map fst (buildGraph cfg))"
    and p: "\<forall>p<length order. \<forall>d \<in> set (deps_of (buildGraph cfg) (order ! p)).
           \<exists>q<p. order ! q = d"
    by (elim exE conjE) (rule that; assumption)
  from s have "set order = identity ` set (spinxConfig.workspace cfg)"
    using keys_buildGraph[of cfg] by simp
  with r d p show ?thesis by (intro exI[of _ order] conjI)
qed

theorem getTopologicalOrder_sorted_permutation_witness:
  "getTopologicalOrder (buildGraph ex_shop_cfg) = Inr [''@utils'', ''@orders'', ''@cart'']
   \<and> distinct [''@utils'', ''@orders'', ''@cart'']
   \<and> set [''@utils'', ''@orders'', ''@cart''] = identity ` set (spinxConfig.workspace ex_shop_cfg)"
proof -
  from getTopologicalOrder_sorted_permutation[OF ex_shop_deps_known ex_shop_acyclic] obtain order where
    r: "getTopologicalOrder (buildGraph ex_shop_cfg) = Inr order"
    and d: "distinct order"
    and s: "set order = identity ` set (spinxConfig.workspace ex_shop_cfg)"
    by (elim exE conjE) (rule that; assumption)
  have e: "getTopologicalOrder (buildGraph ex_shop_cfg) = Inr [''@utils'', ''@orders'', ''@cart'']"
    unfolding ex_shop_graph
    by (simp add: getTopologicalOrder_def topo_init_def minus_one_def Let_def)
  with r have "order = [''@utils'', ''@orders'', ''@cart'']" by simp
  with d s e show ?thesis by simp
qed

section \<open>Cycle detection\<close>

text \<open>\<open>depends_on nodes a d\<close>: node \<open>a\<close> lists \<open>d\<close> among its dependencies.\<close>

definition depends_on :: "Graph \<Rightarrow> string \<Rightarrow> string \<Rightarrow> bool" where
  "depends_on nodes a d \<longleftrightarrow> d \<in> set (deps_of nodes a)"

text \<open>A reported path \<open>c\<close> is a cycle of the dependency relation: it has at least one edge,
  starts and ends at the same element, and each element depends on the next.\<close>

definition valid_cycle :: "Graph \<Rightarrow> string list \<Rightarrow> bool" where
  "valid_cycle nodes c \<longleftrightarrow> 2 \<le> length c \<and> hd c = last c \<and> successively (depends_on nodes) c"

text \<open>The finished nodes: visited and no longer on the current path.\<close>

definition black :: "DfsState \<Rightarrow> string set" where
  "black st = set (visited st) - set (DfsState.path st)"

definition dfs_inv :: "Graph \<Rightarrow> DfsState \<Rightarrow> bool" where
  "dfs_inv nodes st \<longleftrightarrow>
     set (recStack st) = set (DfsState.path st) \<and>
     distinct (DfsState.path st) \<and>
     set (DfsState.path st) \<subseteq> set (visited st) \<and>
     successively (depends_on nodes) (DfsState.path st) \<and>
     dep_rel nodes `` black st \<subseteq> black st \<and>
     (\<forall>x \<in> black st. (x, x) \<notin> (dep_rel nodes)\<^sup>+)"

lemma dfs_invD:
  assumes "dfs_inv nodes st"
  shows "set (recStack st) = set (DfsState.path st)"
    and "distinct (DfsState.path st)"
    and "set (DfsState.path st) \<subseteq> set (visited st)"
    and "successively (depends_on nodes) (DfsState.path st)"
    and "dep_rel nodes `` black st \<subseteq> black st"
    and "\<And>x. x \<in> black st \<Longrightarrow> (x, x) \<notin> (dep_rel nodes)\<^sup>+"
  using assms unfolding dfs_inv_def by simp_all

lemma path_enter: "DfsState.path (enter a st) = DfsState.path st @ [a]"
  by (simp add: enter_def)

lemma recStack_enter: "set (recStack (enter a st)) = insert a (set (recStack st))"
  by (auto simp: enter_def set_add_def)

lemma black_enter: "a \<notin> set (visited st) \<Longrightarrow> black (enter a st) = black st"
  unfolding black_def by (auto simp: visited_enter path_enter)

lemma dfs_inv_enter:
  assumes inv: "dfs_inv nodes st" and nv: "a \<notin> set (visited st)"
    and edge: "DfsState.path st = [] \<or> depends_on nodes (last (DfsState.path st)) a"
  shows "dfs_inv nodes (enter a st)"
proof -
  note i = dfs_invD[OF inv]
  from nv i(3) have np: "a \<notin> set (DfsState.path st)" by blast
  show ?thesis
    unfolding dfs_inv_def
  proof (intro conjI)
    show "set (recStack (enter a st)) = set (DfsState.path (enter a st))"
      using i(1) by (simp add: recStack_enter path_enter)
    show "distinct (DfsState.path (enter a st))" using i(2) np by (simp add: path_enter)
    show "set (DfsState.path (enter a st)) \<subseteq> set (visited (enter a st))"
      using i(3) by (auto simp: path_enter visited_enter)
    show "successively (depends_on nodes) (DfsState.path (enter a st))"
      using i(4) edge by (auto simp: path_enter successively_append_iff)
    show "dep_rel nodes `` black (enter a st) \<subseteq> black (enter a st)"
      using i(5) by (simp add: black_enter[OF nv])
    show "\<forall>x \<in> black (enter a st). (x, x) \<notin> (dep_rel nodes)\<^sup>+"
      using i(6) by (simp add: black_enter[OF nv])
  qed
qed

lemma closed_rtrancl:
  assumes "r `` B \<subseteq> B" and "(x, y) \<in> r\<^sup>*" and "x \<in> B"
  shows "y \<in> B"
  using assms(2,3,1) by (induction rule: rtrancl_induct) auto

lemma dfs_inv_leave:
  assumes inv: "dfs_inv nodes st" and p: "DfsState.path st = p @ [a]"
    and deps: "set (deps_of nodes a) \<subseteq> black st"
  shows "dfs_inv nodes (leave a st)" and "DfsState.path (leave a st) = p"
    and "a \<in> black (leave a st)"
proof -
  note i = dfs_invD[OF inv]
  from i(2) p have np: "a \<notin> set p" by simp
  from i(3) p have av: "a \<in> set (visited st)" by simp
  show pl: "DfsState.path (leave a st) = p" by (simp add: leave_def p)
  have bl: "black (leave a st) = insert a (black st)"
    unfolding black_def using np av by (auto simp: leave_def p)
  show "a \<in> black (leave a st)" by (simp add: bl)
  have anb: "a \<notin> black st" by (simp add: black_def p)
  show "dfs_inv nodes (leave a st)"
    unfolding dfs_inv_def
  proof (intro conjI ballI)
    show "set (recStack (leave a st)) = set (DfsState.path (leave a st))"
      using i(1) np by (auto simp: leave_def p)
    show "distinct (DfsState.path (leave a st))" using i(2) by (simp add: pl p)
    show "set (DfsState.path (leave a st)) \<subseteq> set (visited (leave a st))"
      using i(3) by (auto simp: pl p visited_leave)
    show "successively (depends_on nodes) (DfsState.path (leave a st))"
      using i(4) by (simp add: pl p successively_append_iff)
    show "dep_rel nodes `` black (leave a st) \<subseteq> black (leave a st)"
    proof
      fix y assume "y \<in> dep_rel nodes `` black (leave a st)"
      then obtain x where x: "x \<in> insert a (black st)" and e: "(x, y) \<in> dep_rel nodes"
        unfolding bl by blast
      show "y \<in> black (leave a st)"
      proof (cases "x = a")
        case True
        with e have "y \<in> set (deps_of nodes a)" by (simp add: dep_rel_def)
        with deps show ?thesis unfolding bl by blast
      next
        case False
        with x e i(5) show ?thesis unfolding bl by blast
      qed
    qed
  next
    fix x assume "x \<in> black (leave a st)"
    then have x: "x = a \<or> x \<in> black st" unfolding bl by simp
    show "(x, x) \<notin> (dep_rel nodes)\<^sup>+"
    proof (cases "x = a")
      case True
      show ?thesis
      proof
        assume "(x, x) \<in> (dep_rel nodes)\<^sup>+"
        with True have "(a, a) \<in> (dep_rel nodes)\<^sup>+" by simp
        from tranclD[OF this] obtain z where
          z: "(a, z) \<in> dep_rel nodes" and r: "(z, a) \<in> (dep_rel nodes)\<^sup>*" by blast
        from z have "z \<in> set (deps_of nodes a)" by (simp add: dep_rel_def)
        with deps have "z \<in> black st" by blast
        from closed_rtrancl[OF i(5) r this] anb show False by simp
      qed
    next
      case False
      with x have "x \<in> black st" by simp
      then show ?thesis by (rule i(6))
    qed
  qed
qed

lemma successively_dropWhile:
  "successively P xs \<Longrightarrow> successively P (dropWhile Q xs)"
  by (metis successively_append_iff takeWhile_dropWhile_id)

lemma slice_from_indexOf:
  "x \<in> set xs \<Longrightarrow> slice_from xs (indexOf xs x) = dropWhile (\<lambda>y. y \<noteq> x) xs"
  by (simp add: slice_from_def indexOf_def dropWhile_eq_drop)

lemma cycle_report:
  assumes inv: "dfs_inv nodes st" and edge: "depends_on nodes (last (DfsState.path st)) dep"
    and rs: "dep \<in> set (recStack st)"
  shows "valid_cycle nodes (slice_from (DfsState.path st) (indexOf (DfsState.path st) dep) @ [dep])"
proof -
  note i = dfs_invD[OF inv]
  let ?p = "DfsState.path st"
  let ?d = "dropWhile (\<lambda>y. y \<noteq> dep) ?p"
  from rs i(1) have mem: "dep \<in> set ?p" by simp
  then have ne: "?d \<noteq> []" by (simp add: dropWhile_eq_Nil_conv)
  from hd_dropWhile[OF ne] have hd: "hd ?d = dep" by simp
  have "last (takeWhile (\<lambda>y. y \<noteq> dep) ?p @ ?d) = last ?d" using ne by (rule last_appendR)
  then have last: "last ?d = last ?p" by simp
  have s: "successively (depends_on nodes) ?d" using i(4) by (rule successively_dropWhile)
  have "valid_cycle nodes (?d @ [dep])"
    unfolding valid_cycle_def
  proof (intro conjI)
    from ne show "2 \<le> length (?d @ [dep])" by (cases ?d) simp_all
    show "hd (?d @ [dep]) = last (?d @ [dep])" using ne hd by simp
    show "successively (depends_on nodes) (?d @ [dep])"
      using s edge last by (simp add: successively_append_iff)
  qed
  then show ?thesis by (simp add: slice_from_indexOf[OF mem])
qed

text \<open>What a call of \<open>dfs\<close> or of the loop over the dependencies establishes: a thrown error
  carries a valid cycle; a normal return reports no cycle, restores the path, keeps the
  invariant, and has finished the nodes \<open>S\<close>.\<close>

definition dfs_post :: "Graph \<Rightarrow> DfsState \<Rightarrow> string set \<Rightarrow> error + (bool \<times> DfsState) \<Rightarrow> bool" where
  "dfs_post nodes st S r \<longleftrightarrow>
     (case r of
        Inl e \<Rightarrow> \<exists>c. e = CircularDependency c \<and> valid_cycle nodes c
      | Inr (found, st') \<Rightarrow>
          \<not> found \<and> dfs_inv nodes st' \<and> DfsState.path st' = DfsState.path st \<and>
          set (visited st) \<subseteq> set (visited st') \<and> S \<subseteq> black st')"

lemma dfs_post_InlI: "valid_cycle nodes c \<Longrightarrow> dfs_post nodes st S (Inl (CircularDependency c))"
  by (simp add: dfs_post_def)

lemma dfs_post_InlD:
  "dfs_post nodes st S (Inl e) \<Longrightarrow> \<exists>c. e = CircularDependency c \<and> valid_cycle nodes c"
  by (simp add: dfs_post_def)

lemma dfs_post_Inl_any: "dfs_post nodes st S (Inl e) \<Longrightarrow> dfs_post nodes st' S' (Inl e)"
  by (simp add: dfs_post_def)

lemma dfs_post_InrD:
  assumes "dfs_post nodes st S (Inr (found, st'))"
  shows "\<not> found" and "dfs_inv nodes st'" and "DfsState.path st' = DfsState.path st"
    and "set (visited st) \<subseteq> set (visited st')" and "S \<subseteq> black st'"
  using assms by (simp_all add: dfs_post_def)

lemma dfs_post_InrI:
  assumes "dfs_inv nodes st'" and "DfsState.path st' = DfsState.path st"
    and "set (visited st) \<subseteq> set (visited st')" and "S \<subseteq> black st'"
  shows "dfs_post nodes st S (Inr (False, st'))"
  using assms by (simp add: dfs_post_def)

lemma black_mono:
  "DfsState.path st' = DfsState.path st \<Longrightarrow> set (visited st) \<subseteq> set (visited st') \<Longrightarrow>
   black st \<subseteq> black st'"
  unfolding black_def by auto

lemma dfs_post_trans:
  assumes r: "dfs_post nodes st1 S r" and p: "DfsState.path st1 = DfsState.path st"
    and v: "set (visited st) \<subseteq> set (visited st1)" and t: "T \<subseteq> black st1"
  shows "dfs_post nodes st (T \<union> S) r"
proof (cases r)
  case (Inl e)
  with r show ?thesis by (simp add: dfs_post_def)
next
  case (Inr x)
  obtain found st' where x: "x = (found, st')" by (cases x)
  note d = dfs_post_InrD[OF r[unfolded Inr x]]
  from black_mono[OF d(3,4)] t have "T \<subseteq> black st'" by blast
  with d p v show ?thesis unfolding Inr x dfs_post_def by auto
qed

lemma dfs_correct:
  shows "deps_known nodes \<Longrightarrow> dfs_inv nodes st \<Longrightarrow> a \<notin> set (visited st) \<Longrightarrow>
      a \<in> fst ` set nodes \<Longrightarrow>
      DfsState.path st = [] \<or> depends_on nodes (last (DfsState.path st)) a \<Longrightarrow>
      dfs_post nodes st {a} (dfs nodes a st)"
    and "deps_known nodes \<Longrightarrow> dfs_inv nodes st \<Longrightarrow> DfsState.path st \<noteq> [] \<Longrightarrow>
      set deps \<subseteq> set (deps_of nodes (last (DfsState.path st))) \<Longrightarrow>
      dfs_post nodes st (set deps) (dfs_deps nodes deps st)"
proof (induction nodes a st and nodes deps st rule: dfs_dfs_deps.induct)
  case (1 nodes a st)
  from "1.prems"(4) obtain node where node: "map_of nodes a = Some node"
    by (metis map_of_eq_None_iff not_Some_eq)
  then have da: "deps_of nodes a = dependencies node" by (simp add: deps_of_def)
  let ?E = "enter a st"
  have invE: "dfs_inv nodes ?E" by (rule dfs_inv_enter[OF "1.prems"(2,3,5)])
  have pE: "DfsState.path ?E \<noteq> []" by (simp add: path_enter)
  have sub: "set (dependencies node) \<subseteq> set (deps_of nodes (last (DfsState.path ?E)))"
    by (simp add: path_enter da)
  note IH = "1.IH"[OF node "1.prems"(1) invE pE sub]
  show ?case
  proof (cases "dfs_deps nodes (dependencies node) ?E")
    case (Inl e)
    then have "dfs nodes a st = Inl e" by (simp add: dfs.simps node)
    with IH Inl show ?thesis by (simp add: dfs_post_def)
  next
    case (Inr x)
    obtain found st2 where x: "x = (found, st2)" by (cases x)
    note d = dfs_post_InrD[OF IH[unfolded Inr x]]
    have r: "dfs nodes a st = Inr (False, leave a st2)"
      using d(1) by (simp add: dfs.simps node Inr x)
    have p2: "DfsState.path st2 = DfsState.path st @ [a]" using d(3) by (simp add: path_enter)
    have deps: "set (deps_of nodes a) \<subseteq> black st2" using d(5) by (simp add: da)
    note l = dfs_inv_leave[OF d(2) p2 deps]
    have "set (visited st) \<subseteq> set (visited ?E)" by (auto simp: visited_enter)
    with d(4) have v: "set (visited st) \<subseteq> set (visited (leave a st2))"
      by (simp add: visited_leave)
    from l(3) have "{a} \<subseteq> black (leave a st2)" by simp
    from dfs_post_InrI[OF l(1) l(2) v this] show ?thesis unfolding r .
  qed
next
  case (2 nodes st)
  have "dfs_deps nodes [] st = Inr (False, st)" by (simp add: dfs_deps.simps)
  with "2.prems"(2) show ?case by (simp add: dfs_post_def)
next
  case (3 nodes dep deps st)
  let ?a = "last (DfsState.path st)"
  from "3.prems"(4) have dep: "dep \<in> set (deps_of nodes ?a)"
    and rest: "set deps \<subseteq> set (deps_of nodes ?a)" by simp_all
  from dep have edge: "depends_on nodes ?a dep" by (simp add: depends_on_def)
  show ?case
  proof (cases "dep \<notin> set (visited st)")
    case True
    from dep deps_known_subset[OF "3.prems"(1)] have key: "dep \<in> fst ` set nodes" by blast
    note IH1 = "3.IH"(1)[OF True "3.prems"(1,2) True key disjI2[OF edge]]
    show ?thesis
    proof (cases "dfs nodes dep st")
      case (Inl e)
      then have "dfs_deps nodes (dep # deps) st = Inl e" using True by (simp add: dfs_deps.simps)
      with IH1 Inl show ?thesis by (simp add: dfs_post_def)
    next
      case (Inr x)
      obtain found st1 where x: "x = (found, st1)" by (cases x)
      note d = dfs_post_InrD[OF IH1[unfolded Inr x]]
      have r: "dfs_deps nodes (dep # deps) st = dfs_deps nodes deps st1"
        using True d(1) by (simp add: dfs_deps.simps Inr x)
      have p1: "DfsState.path st1 \<noteq> []" using d(3) "3.prems"(3) by simp
      have sub: "set deps \<subseteq> set (deps_of nodes (last (DfsState.path st1)))"
        using rest d(3) by simp
      note IH2 = "3.IH"(2)[OF True Inr x[symmetric] d(1) "3.prems"(1) d(2) p1 sub]
      from dfs_post_trans[OF IH2 d(3,4,5)] show ?thesis unfolding r by simp
    qed
  next
    case False
    show ?thesis
    proof (cases "dep \<in> set (recStack st)")
      case True
      have "dfs_deps nodes (dep # deps) st =
          Inl (CircularDependency
                (slice_from (DfsState.path st) (indexOf (DfsState.path st) dep) @ [dep]))"
        using False True by (simp add: dfs_deps.simps)
      with cycle_report[OF "3.prems"(2) edge True] show ?thesis by (simp add: dfs_post_def)
    next
      case nr: False
      have r: "dfs_deps nodes (dep # deps) st = dfs_deps nodes deps st"
        using False nr by (simp add: dfs_deps.simps)
      note IH3 = "3.IH"(3)[OF False nr "3.prems"(1,2,3) rest]
      from False nr dfs_invD(1)[OF "3.prems"(2)] have "{dep} \<subseteq> black st"
        by (simp add: black_def)
      from dfs_post_trans[OF IH3 refl subset_refl this] show ?thesis unfolding r by simp
    qed
  qed
qed

definition detect_post :: "Graph \<Rightarrow> DfsState \<Rightarrow> string set \<Rightarrow> error + DfsState \<Rightarrow> bool" where
  "detect_post nodes st S r \<longleftrightarrow>
     (case r of
        Inl e \<Rightarrow> \<exists>c. e = CircularDependency c \<and> valid_cycle nodes c
      | Inr st' \<Rightarrow> dfs_inv nodes st' \<and> DfsState.path st' = [] \<and>
          set (visited st) \<subseteq> set (visited st') \<and> S \<subseteq> set (visited st'))"

lemma detect_loop_correct:
  "deps_known nodes \<Longrightarrow> dfs_inv nodes st \<Longrightarrow> DfsState.path st = [] \<Longrightarrow>
   set ks \<subseteq> fst ` set nodes \<Longrightarrow> detect_post nodes st (set ks) (detect_loop nodes ks st)"
proof (induction ks arbitrary: st)
  case Nil
  then show ?case by (simp add: detect_post_def)
next
  case (Cons a rest)
  from Cons.prems(4) have key: "a \<in> fst ` set nodes" and sub: "set rest \<subseteq> fst ` set nodes"
    by simp_all
  show ?case
  proof (cases "a \<notin> set (visited st)")
    case True
    note c = dfs_correct(1)[OF Cons.prems(1,2) True key disjI1[OF Cons.prems(3)]]
    show ?thesis
    proof (cases "dfs nodes a st")
      case (Inl e)
      then have "detect_loop nodes (a # rest) st = Inl e" using True by simp
      with c Inl show ?thesis by (simp add: detect_post_def dfs_post_def)
    next
      case (Inr x)
      obtain found st1 where x: "x = (found, st1)" by (cases x)
      note d = dfs_post_InrD[OF c[unfolded Inr x]]
      have r: "detect_loop nodes (a # rest) st = detect_loop nodes rest st1"
        using True by (simp add: Inr x)
      have p1: "DfsState.path st1 = []" using d(3) Cons.prems(3) by simp
      note IH = Cons.IH[OF Cons.prems(1) d(2) p1 sub]
      from d(5) have a1: "a \<in> set (visited st1)" by (simp add: black_def)
      show ?thesis unfolding r using IH d(4) a1
        by (cases "detect_loop nodes rest st1") (auto simp: detect_post_def)
    qed
  next
    case False
    then have r: "detect_loop nodes (a # rest) st = detect_loop nodes rest st" by simp
    note IH = Cons.IH[OF Cons.prems(1,2,3) sub]
    show ?thesis unfolding r using IH False
      by (cases "detect_loop nodes rest st") (auto simp: detect_post_def)
  qed
qed

lemma dfs_inv_initial: "dfs_inv nodes \<lparr>visited = [], recStack = [], path = []\<rparr>"
  by (simp add: dfs_inv_def black_def)

lemma detectCycles_correct:
  assumes known: "deps_known nodes"
  shows "case detectCycles nodes of
           Inl e \<Rightarrow> \<exists>c. e = CircularDependency c \<and> valid_cycle nodes c
         | Inr u \<Rightarrow> acyclic (dep_rel nodes)"
proof -
  let ?st = "\<lparr>visited = [], recStack = [], path = []\<rparr>"
  have "set (map fst nodes) \<subseteq> fst ` set nodes" by simp
  have "DfsState.path ?st = []" by simp
  note c = detect_loop_correct[OF known dfs_inv_initial this \<open>set (map fst nodes) \<subseteq> fst ` set nodes\<close>]
  show ?thesis
  proof (cases "detect_loop nodes (map fst nodes) ?st")
    case (Inl e)
    with c show ?thesis by (simp add: detectCycles_def detect_post_def)
  next
    case (Inr st')
    with c have inv: "dfs_inv nodes st'" and p: "DfsState.path st' = []"
      and all: "fst ` set nodes \<subseteq> set (visited st')"
      by (simp_all add: detect_post_def)
    have "acyclic (dep_rel nodes)"
      unfolding acyclic_def
    proof (intro allI notI)
      fix x assume x: "(x, x) \<in> (dep_rel nodes)\<^sup>+"
      from tranclD[OF x] obtain z where "(x, z) \<in> dep_rel nodes" by blast
      then have "z \<in> set (deps_of nodes x)" by (simp add: dep_rel_def)
      then have "map_of nodes x \<noteq> None" by (cases "map_of nodes x") (simp_all add: deps_of_def)
      then have "x \<in> fst ` set nodes" by (simp add: map_of_eq_None_iff)
      with all p have "x \<in> black st'" by (auto simp: black_def)
      from dfs_invD(6)[OF inv this] x show False by simp
    qed
    with Inr show ?thesis by (simp add: detectCycles_def)
  qed
qed

text \<open>
  On a graph whose dependencies are all node keys, cycle detection is exact: if the
  dependency relation has a cycle, construction fails with a circular-dependency error
  whose path starts and ends at the same alias, each element depending on the next.
\<close>

lemma DependencyGraph_cycle_on_known_deps:
  assumes "deps_known (buildGraph cfg)" and "\<not> acyclic (dep_rel (buildGraph cfg))"
  shows "\<exists>c. DependencyGraph cfg = Inl (CircularDependency c) \<and> valid_cycle (buildGraph cfg) c"
proof (cases "detectCycles (buildGraph cfg)")
  case (Inl e)
  with detectCycles_correct[OF assms(1)] obtain c where
    "e = CircularDependency c" and "valid_cycle (buildGraph cfg) c" by auto
  with Inl show ?thesis by (simp add: DependencyGraph_def)
next
  case (Inr u)
  with detectCycles_correct[OF assms(1)] assms(2) show ?thesis by simp
qed

definition ex_a :: Workspace where
  "ex_a = \<lparr>Workspace.path = ''/repo/a'', alias = Some ''@a'', dependsOn = Some [''@b''],
           command = None\<rparr>"

definition ex_b :: Workspace where
  "ex_b = \<lparr>Workspace.path = ''/repo/b'', alias = Some ''@b'', dependsOn = Some [''@a''],
           command = None\<rparr>"

definition ex_cycle_cfg :: spinxConfig where
  "ex_cycle_cfg =
     \<lparr>concurrency = None,
      spinxConfig.workspace =
        [ex_a, ex_b],
      defaults = None\<rparr>"

lemma ex_cycle_graph:
  "buildGraph ex_cycle_cfg =
     [(''@a'', \<lparr>GraphNode.workspace = ex_a, dependencies = [''@b''], dependents = [''@b'']\<rparr>),
      (''@b'', \<lparr>GraphNode.workspace = ex_b, dependencies = [''@a''], dependents = [''@a'']\<rparr>)]"
  by (simp add: ex_cycle_cfg_def buildGraph_def init_nodes_def build_dependents_def new_node_def
      add_dependent_def identity_def js_or_def truthy_def new_Set_def set_add_def ex_a_def ex_b_def)

lemma ex_cycle_deps_known: "deps_known (buildGraph ex_cycle_cfg)"
  unfolding ex_cycle_graph by (simp add: deps_known_def)

lemma ex_cycle_not_acyclic: "\<not> acyclic (dep_rel (buildGraph ex_cycle_cfg))"
proof -
  have "(''@a'', ''@b'') \<in> dep_rel (buildGraph ex_cycle_cfg)"
    unfolding ex_cycle_graph by (simp add: dep_rel_def deps_of_def)
  moreover have "(''@b'', ''@a'') \<in> dep_rel (buildGraph ex_cycle_cfg)"
    unfolding ex_cycle_graph by (simp add: dep_rel_def deps_of_def)
  ultimately have "(''@a'', ''@a'') \<in> (dep_rel (buildGraph ex_cycle_cfg))\<^sup>+" by (rule trancl_into_trancl[OF r_into_trancl])
  then show ?thesis unfolding acyclic_def by blast
qed

lemma ex_cycle_detect:
  "DependencyGraph ex_cycle_cfg = Inl (CircularDependency [''@a'', ''@b'', ''@a''])"
  unfolding DependencyGraph_def ex_cycle_graph
  by (simp add: detectCycles_def dfs.simps dfs_deps.simps enter_def leave_def set_add_def
      indexOf_def slice_from_def)

lemma ex_cycle_reported:
  "DependencyGraph ex_cycle_cfg = Inl (CircularDependency [''@a'', ''@b'', ''@a''])
   \<and> valid_cycle (buildGraph ex_cycle_cfg) [''@a'', ''@b'', ''@a'']"
proof -
  from DependencyGraph_cycle_on_known_deps[OF ex_cycle_deps_known ex_cycle_not_acyclic]
  obtain c where r: "DependencyGraph ex_cycle_cfg = Inl (CircularDependency c)"
    and v: "valid_cycle (buildGraph ex_cycle_cfg) c"
    by (elim exE conjE) (rule that; assumption)
  from r have "c = [''@a'', ''@b'', ''@a'']" by (simp add: ex_cycle_detect)
  with r v show ?thesis by simp
qed

definition ex_lib :: Workspace where
  "ex_lib = \<lparr>Workspace.path = ''/repo/lib'', alias = Some [], dependsOn = None,
             command = None\<rparr>"

definition ex_a' :: Workspace where
  "ex_a' = \<lparr>Workspace.path = ''/repo/a'', alias = Some ''@a'', dependsOn = Some [[], ''@b''],
            command = None\<rparr>"

definition ex_unnamed_cfg :: spinxConfig where
  "ex_unnamed_cfg =
     \<lparr>concurrency = None, spinxConfig.workspace = [ex_lib, ex_a', ex_b], defaults = None\<rparr>"

lemma ex_unnamed_graph:
  "buildGraph ex_unnamed_cfg =
     [(''/repo/lib'', \<lparr>GraphNode.workspace = ex_lib, dependencies = [], dependents = []\<rparr>),
      (''@a'', \<lparr>GraphNode.workspace = ex_a', dependencies = [[], ''@b''], dependents = [''@b'']\<rparr>),
      (''@b'', \<lparr>GraphNode.workspace = ex_b, dependencies = [''@a''], dependents = [''@a'']\<rparr>)]"
  by (simp add: ex_unnamed_cfg_def buildGraph_def init_nodes_def build_dependents_def new_node_def
      add_dependent_def identity_def js_or_def truthy_def new_Set_def set_add_def
      ex_lib_def ex_a'_def ex_b_def)

lemma ex_unnamed_valid: "validateWorkspaces (\<lambda>p. True) ex_unnamed_cfg = Inr ()"
  by (simp add: validateWorkspaces_def ex_unnamed_cfg_def ex_lib_def ex_a'_def ex_b_def
      known_alias_def truthy_def set_add_def identity_def js_or_def)

lemma ex_unnamed_not_acyclic: "\<not> acyclic (dep_rel (buildGraph ex_unnamed_cfg))"
proof -
  have "(''@a'', ''@b'') \<in> dep_rel (buildGraph ex_unnamed_cfg)"
    unfolding ex_unnamed_graph by (simp add: dep_rel_def deps_of_def)
  moreover have "(''@b'', ''@a'') \<in> dep_rel (buildGraph ex_unnamed_cfg)"
    unfolding ex_unnamed_graph by (simp add: dep_rel_def deps_of_def)
  ultimately have "(''@a'', ''@a'') \<in> (dep_rel (buildGraph ex_unnamed_cfg))\<^sup>+"
    by (rule trancl_into_trancl[OF r_into_trancl])
  then show ?thesis unfolding acyclic_def by blast
qed

text \<open>
  Claim C5 fails on the code. \<^verbatim>\<open>dfs\<close> returns at \<^verbatim>\<open>if (!node) return false\<close> for an alias
  that is no node, after it has put the alias on \<^verbatim>\<open>recStack\<close> and \<^verbatim>\<open>path\<close> and without
  taking it off again. A workspace with the empty alias is keyed by its path, and
  \<^verbatim>\<open>validateWorkspaces\<close> accepts the empty string as a dependency name, so such an alias
  reaches \<^verbatim>\<open>dfs\<close>. In the configuration below \<^verbatim>\<open>@a\<close> depends on the empty alias and on
  \<^verbatim>\<open>@b\<close>, and \<^verbatim>\<open>@b\<close> on \<^verbatim>\<open>@a\<close>: validation passes, the dependency relation has the cycle
  \<^verbatim>\<open>@a\<close>, \<^verbatim>\<open>@b\<close>, \<^verbatim>\<open>@a\<close>, construction fails, and the reported path runs through the
  empty alias, which does not depend on \<^verbatim>\<open>@b\<close>: it is no cycle of the relation.
\<close>

theorem detectCycles_reports_path_through_missing_node:
  "validateWorkspaces (\<lambda>p. True) ex_unnamed_cfg = Inr ()
   \<and> \<not> acyclic (dep_rel (buildGraph ex_unnamed_cfg))
   \<and> DependencyGraph ex_unnamed_cfg = Inl (CircularDependency [''@a'', [], ''@b'', ''@a''])
   \<and> \<not> depends_on (buildGraph ex_unnamed_cfg) [] ''@b''
   \<and> \<not> valid_cycle (buildGraph ex_unnamed_cfg) [''@a'', [], ''@b'', ''@a'']"
proof -
  have r: "DependencyGraph ex_unnamed_cfg = Inl (CircularDependency [''@a'', [], ''@b'', ''@a''])"
    unfolding DependencyGraph_def ex_unnamed_graph
    by (simp add: detectCycles_def dfs.simps dfs_deps.simps enter_def leave_def set_add_def
        indexOf_def slice_from_def)
  have d: "\<not> depends_on (buildGraph ex_unnamed_cfg) [] ''@b''"
    unfolding ex_unnamed_graph by (simp add: depends_on_def deps_of_def)
  have v: "\<not> valid_cycle (buildGraph ex_unnamed_cfg) [''@a'', [], ''@b'', ''@a'']"
    unfolding ex_unnamed_graph by (simp add: valid_cycle_def depends_on_def deps_of_def)
  from ex_unnamed_valid ex_unnamed_not_acyclic r d v show ?thesis by (intro conjI)
qed

text \<open>
  The same early return makes the constructor reject an acyclic graph: once the empty
  alias has stayed on \<^verbatim>\<open>recStack\<close>, the next workspace that depends on it is reported
  as closing a cycle.
\<close>

definition ex_blank_app2 :: Workspace where
  "ex_blank_app2 = \<lparr>Workspace.path = ''/repo/b'', alias = Some ''@b'', dependsOn = Some [[]],
                    command = None\<rparr>"

definition ex_blank2_cfg :: spinxConfig where
  "ex_blank2_cfg =
     \<lparr>concurrency = None, spinxConfig.workspace = [ex_blank_lib, ex_blank_app, ex_blank_app2],
      defaults = None\<rparr>"

lemma ex_blank2_graph:
  "buildGraph ex_blank2_cfg =
     [(''/repo/lib'', \<lparr>GraphNode.workspace = ex_blank_lib, dependencies = [], dependents = []\<rparr>),
      (''@a'', \<lparr>GraphNode.workspace = ex_blank_app, dependencies = [[]], dependents = []\<rparr>),
      (''@b'', \<lparr>GraphNode.workspace = ex_blank_app2, dependencies = [[]], dependents = []\<rparr>)]"
  by (simp add: ex_blank2_cfg_def buildGraph_def init_nodes_def build_dependents_def new_node_def
      add_dependent_def identity_def js_or_def truthy_def new_Set_def set_add_def
      ex_blank_lib_def ex_blank_app_def ex_blank_app2_def)

lemma acyclic_graph_reported_circular:
  "validateWorkspaces (\<lambda>p. True) ex_blank2_cfg = Inr ()
   \<and> acyclic (dep_rel (buildGraph ex_blank2_cfg))
   \<and> DependencyGraph ex_blank2_cfg = Inl (CircularDependency [''@b'', []])"
proof (intro conjI)
  show "validateWorkspaces (\<lambda>p. True) ex_blank2_cfg = Inr ()"
    by (simp add: validateWorkspaces_def ex_blank2_cfg_def ex_blank_lib_def ex_blank_app_def
        ex_blank_app2_def known_alias_def truthy_def set_add_def identity_def js_or_def)
  show "acyclic (dep_rel (buildGraph ex_blank2_cfg))"
  proof (rule acyclic_by_rank[where f = "\<lambda>a. if a = [] then 0 else (1::nat)"])
    fix a d assume "(a, d) \<in> dep_rel (buildGraph ex_blank2_cfg)"
    then have "d \<in> set (deps_of (buildGraph ex_blank2_cfg) a)" by (simp add: dep_rel_def)
    then show "(if d = [] then 0 else (1::nat)) < (if a = [] then 0 else 1)"
      unfolding ex_blank2_graph by (auto simp: deps_of_def split: if_splits)
  qed
  show "DependencyGraph ex_blank2_cfg = Inl (CircularDependency [''@b'', []])"
    unfolding DependencyGraph_def ex_blank2_graph
    by (simp add: detectCycles_def dfs.simps dfs_deps.simps enter_def leave_def set_add_def
        indexOf_def slice_from_def)
qed

end
